theory Spec2Isabelle
  imports Main "HOL-Library.AList"
begin

section \<open>partition-extensions.js: data model\<close>

text \<open>
  The partitioning script keeps its checkpoint in \<^verbatim>\<open>partition_progress.json\<close>. A
  progress object has four fields; on disk any of them may be missing, because
  \<^verbatim>\<open>ProgressTracker.load\<close> returns \<^verbatim>\<open>JSON.parse(data)\<close> as it is. Once
  \<^verbatim>\<open>partitionExtensionFiles\<close> has read \<^verbatim>\<open>progress.processedFiles\<close> without a
  \<^verbatim>\<open>TypeError\<close> the list is there for the rest of the run; the three other fields stay
  optional (\<open>None\<close> is \<^verbatim>\<open>undefined\<close>).
\<close>

record progress =
  binsCreated :: "bool option"
  processedFiles :: "string list"
  binSizesCalculated :: "bool option"
  lastUpdate :: "nat option"

text \<open>A parsed JSON object: a field that is absent reads as \<^verbatim>\<open>undefined\<close>, here \<open>None\<close>.
  Unknown extra fields are carried by the JavaScript object and never read; they are
  left out.\<close>

record pobj =
  o_binsCreated :: "bool option"
  o_processedFiles :: "string list option"
  o_binSizesCalculated :: "bool option"
  o_lastUpdate :: "nat option"

text \<open>What \<^verbatim>\<open>fs.existsSync\<close>, \<^verbatim>\<open>readFile\<close> and \<^verbatim>\<open>JSON.parse\<close> make of the checkpoint
  file: it is absent, present but unreadable, readable but not JSON, the JSON value
  \<^verbatim>\<open>null\<close>, or a JSON object. (A number, string or boolean reads like an object
  without fields: every property of it is \<^verbatim>\<open>undefined\<close>.)\<close>

datatype 'a ckpt = Absent | Unreadable | Corrupt | ParsedNull | Parsed 'a

datatype loaded = LNull | LObj pobj

text \<open>One entry of the array a worker posts: \<^verbatim>\<open>{ file, success, bin }\<close> or
  \<^verbatim>\<open>{ file, success, error }\<close>.\<close>

record result =
  rfile :: string
  success :: bool
  bin :: "string option"
  error :: "string option"

datatype worker_msg = Results "result list" | ErrorObject string

text \<open>How a worker thread ends, as the main thread sees it. The thread runs
  \<^verbatim>\<open>workerProcess\<close>, whose whole body is inside \<^verbatim>\<open>try\<close>/\<^verbatim>\<open>catch\<close> and which never calls
  \<^verbatim>\<open>process.exit\<close>: it posts its results, or it posts the error object of its outer
  \<^verbatim>\<open>catch\<close>, and then exits with code 0; or the thread itself fails (it cannot be started,
  it runs out of memory), Node emits \<^verbatim>\<open>'error'\<close> on the worker and the thread exits with
  code 1.\<close>

datatype worker_fate = Posts | PostsError string | ErrorEvent string

text \<open>The events the main thread receives from one worker.\<close>

datatype worker_event = PostedResults | PostedError string | EmittedError string | Exited nat

datatype settle = Resolved | Rejected | Pending

text \<open>The lines written with \<^verbatim>\<open>console.error\<close>.\<close>

datatype console_line =
    ErrorLoadingProgress
  | ErrorSavingProgress
  | WorkerErrorObject string
  | ErrorProcessingFile string string
  | ErrorHandlingMessage
  | WorkerErrorEvent string
  | WorkerExitedNonZero nat
  | ErrorProcessingBatch
  | FailedToPartition string
  | CriticalError string

text \<open>A directory is a list of path segments below the working directory.\<close>

type_synonym path = "string list"

text \<open>Everything the run reads from outside: the number of CPUs, the source directory
  and its listing, the directories that exist before the run, whether a source file is
  still there when a worker looks, an I/O failure of \<^verbatim>\<open>copyFileSync\<close> other than a
  missing target directory, how the worker for a batch ends, whether the n-th write
  of the checkpoint succeeds, and the clock at the n-th save.\<close>

record env =
  cpus :: nat
  sourceDirExists :: bool
  listing :: "string list"
  dirs :: "path list"
  srcPresent :: "string \<Rightarrow> bool"
  copyFault :: "string \<Rightarrow> string option"
  fate :: "string list \<Rightarrow> worker_fate"
  writeOk :: "nat \<Rightarrow> bool"
  clock :: "nat \<Rightarrow> nat"

text \<open>The main thread's state: the progress object, the checkpoint file, the
  object handed to \<^verbatim>\<open>writeFile\<close> by every \<^verbatim>\<open>ProgressTracker.save\<close> call so far, the error
  console, the local counters of \<^verbatim>\<open>partitionExtensionFiles\<close>, the batches handed
  to workers, and the events of workers of earlier rounds that the event loop has
  not delivered yet, each with the batch of its worker.\<close>

record state =
  progress :: progress
  disk :: "pobj ckpt"
  saves :: "pobj list"
  console :: "console_line list"
  processed :: nat
  errors :: nat
  binSizes :: "(string \<times> nat) list"
  spawned :: "string list list"
  undelivered :: "(string list \<times> worker_event) list"

section \<open>Node's path functions on names without a separator\<close>

text \<open>\<^verbatim>\<open>readdir\<close> yields plain names, so only the separator-free behaviour of
  \<^verbatim>\<open>path.extname\<close>, \<^verbatim>\<open>path.basename(name, ext)\<close> and \<^verbatim>\<open>path.join(dir, name)\<close> is needed.
  \<^verbatim>\<open>extname\<close> is the text from the last dot on, and empty when there is no dot, when
  the only dot is the first character, or when the name is \<^verbatim>\<open>..\<close>.\<close>

definition extname :: "string \<Rightarrow> string" where
  "extname f =
     (let r = rev f;
          e = takeWhile (\<lambda>c. c \<noteq> CHR ''.'') r;
          rest = dropWhile (\<lambda>c. c \<noteq> CHR ''.'') r
      in if rest = [] then []
         else if tl rest = [] then []
         else if f = ''..'' then []
         else CHR ''.'' # rev e)"

text \<open>\<^verbatim>\<open>toLowerCase\<close> on ASCII text.\<close>

definition toLowerCase :: "string \<Rightarrow> string" where
  "toLowerCase s =
     map (\<lambda>c. case map_of (zip ''ABCDEFGHIJKLMNOPQRSTUVWXYZ'' ''abcdefghijklmnopqrstuvwxyz'') c of
                Some l \<Rightarrow> l
              | None \<Rightarrow> c) s"

text \<open>\<^verbatim>\<open>path.basename(name, ext)\<close>: the name without the suffix \<^verbatim>\<open>ext\<close> when it ends with
  it, empty when the name is the suffix itself, the whole name otherwise.\<close>

definition basename :: "string \<Rightarrow> string \<Rightarrow> string" where
  "basename f ext =
     (if ext \<noteq> [] \<and> length ext \<le> length f
      then (if ext = f then []
            else if drop (length f - length ext) f = ext
                 then take (length f - length ext) f
                 else f)
      else f)"

definition substring :: "string \<Rightarrow> nat \<Rightarrow> nat \<Rightarrow> string" where
  "substring s a b = take (max a b - min a b) (drop (min a b) s)"

text \<open>\<^verbatim>\<open>path.join(dir, name)\<close> normalises: an empty or \<^verbatim>\<open>.\<close> segment adds nothing and
  \<^verbatim>\<open>..\<close> removes the last segment.\<close>

definition path_join :: "path \<Rightarrow> string \<Rightarrow> path" where
  "path_join p s =
     (if s = [] \<or> s = ''.'' then p
      else if s = ''..'' then (if p = [] \<or> last p = ''..'' then p @ [s] else butlast p)
      else p @ [s])"

definition targetBaseDir :: path where
  "targetBaseDir = [''partitioned_extensions'']"

definition BATCH_SIZE :: nat where
  "BATCH_SIZE = 100"

definition MAX_WORKERS :: "env \<Rightarrow> nat" where
  "MAX_WORKERS e = max 1 (cpus e - 1)"

definition slice :: "'a list \<Rightarrow> nat \<Rightarrow> nat \<Rightarrow> 'a list" where
  "slice xs a b = take (b - a) (drop a xs)"

section \<open>ProgressTracker\<close>

definition default_progress :: "nat \<Rightarrow> pobj" where
  "default_progress now =
     \<lparr>o_binsCreated = Some False, o_processedFiles = Some [],
      o_binSizesCalculated = Some False, o_lastUpdate = Some now\<rparr>"

text \<open>\<^verbatim>\<open>ProgressTracker.load\<close>: the parsed file when it exists, can be read and parses;
  the default object otherwise, with a console line when reading or parsing threw.\<close>

definition ProgressTracker_load :: "nat \<Rightarrow> pobj ckpt \<Rightarrow> loaded \<times> console_line list" where
  "ProgressTracker_load now d =
     (case d of
        Absent \<Rightarrow> (LObj (default_progress now), [])
      | Unreadable \<Rightarrow> (LObj (default_progress now), [ErrorLoadingProgress])
      | Corrupt \<Rightarrow> (LObj (default_progress now), [ErrorLoadingProgress])
      | ParsedNull \<Rightarrow> (LNull, [])
      | Parsed obj \<Rightarrow> (LObj obj, []))"

definition to_json :: "progress \<Rightarrow> pobj" where
  "to_json p =
     \<lparr>o_binsCreated = binsCreated p, o_processedFiles = Some (processedFiles p),
      o_binSizesCalculated = binSizesCalculated p, o_lastUpdate = lastUpdate p\<rparr>"

definition of_json :: "pobj \<Rightarrow> string list \<Rightarrow> progress" where
  "of_json obj pf =
     \<lparr>binsCreated = o_binsCreated obj, processedFiles = pf,
      binSizesCalculated = o_binSizesCalculated obj, lastUpdate = o_lastUpdate obj\<rparr>"

text \<open>The write at the end of \<^verbatim>\<open>ProgressTracker.save\<close>, with its \<^verbatim>\<open>catch\<close>. A failed
  write is taken to leave the file as it was.\<close>

definition writeFile :: "env \<Rightarrow> pobj \<Rightarrow> state \<Rightarrow> state" where
  "writeFile e obj st =
     (let n = length (saves st);
          st1 = st\<lparr>saves := saves st @ [obj]\<rparr>
      in if writeOk e n then st1\<lparr>disk := Parsed obj\<rparr>
         else st1\<lparr>console := console st1 @ [ErrorSavingProgress]\<rparr>)"

text \<open>\<^verbatim>\<open>ProgressTracker.save\<close>: stamps the object and writes it.\<close>

definition ProgressTracker_save :: "env \<Rightarrow> state \<Rightarrow> state" where
  "ProgressTracker_save e st =
     (let p = (progress st)\<lparr>lastUpdate := Some (clock e (length (saves st)))\<rparr>
      in writeFile e (to_json p) (st\<lparr>progress := p\<rparr>))"

definition isFileProcessed :: "progress \<Rightarrow> string \<Rightarrow> bool" where
  "isFileProcessed p filename = (filename \<in> set (processedFiles p))"

definition markFileProcessed :: "env \<Rightarrow> string \<Rightarrow> state \<Rightarrow> state" where
  "markFileProcessed e filename st =
     (if filename \<notin> set (processedFiles (progress st))
      then (let p = (progress st)\<lparr>processedFiles := processedFiles (progress st) @ [filename]\<rparr>;
                st1 = st\<lparr>progress := p\<rparr>
            in if length (processedFiles p) mod 100 = 0 then ProgressTracker_save e st1 else st1)
      else st)"

section \<open>createBinDirectories and the worker\<close>

definition chars :: "char list" where
  "chars = ''abcdefghijklmnop''"

definition dir_exists :: "path list \<Rightarrow> path \<Rightarrow> bool" where
  "dir_exists ds p = (p = [] \<or> p \<in> set ds)"

definition mkdir_if_missing :: "path \<Rightarrow> path list \<Rightarrow> path list" where
  "mkdir_if_missing p ds = (if dir_exists ds p then ds else ds @ [p])"

text \<open>The base directory first, then one directory for each of the 256 two-letter
  prefixes over \<^verbatim>\<open>a\<close> to \<^verbatim>\<open>p\<close>, in the order of the two nested loops. Every
  \<^verbatim>\<open>mkdir\<close> is taken to succeed.\<close>

definition createBinDirectories :: "path list \<Rightarrow> path list" where
  "createBinDirectories ds =
     fold (\<lambda>prefix. mkdir_if_missing (path_join targetBaseDir prefix))
       (concat (map (\<lambda>firstChar. map (\<lambda>secondChar. [firstChar, secondChar]) chars) chars))
       (mkdir_if_missing targetBaseDir ds)"

text \<open>\<^verbatim>\<open>fs.copyFileSync(sourcePath, targetPath)\<close> throws when the target directory is
  missing, or for the reason the environment gives; \<open>None\<close> is a copy that succeeded.\<close>

definition copyFileSync :: "env \<Rightarrow> path list \<Rightarrow> path \<Rightarrow> string \<Rightarrow> string option" where
  "copyFileSync e ds targetDir f =
     (if \<not> dir_exists ds targetDir then Some ''ENOENT: no such file or directory''
      else copyFault e f)"

text \<open>The body of \<^verbatim>\<open>fileBatch.map\<close> in \<^verbatim>\<open>workerProcess\<close>, with its own \<^verbatim>\<open>try\<close>/\<^verbatim>\<open>catch\<close>.\<close>

definition process_file :: "env \<Rightarrow> path list \<Rightarrow> string \<Rightarrow> result" where
  "process_file e ds f =
     (let extensionId = basename f ''.json'';
          b = substring extensionId 0 2;
          targetDir = path_join targetBaseDir b
      in if \<not> srcPresent e f
         then \<lparr>rfile = f, success = False, bin = None,
               error = Some ''Source file does not exist''\<rparr>
         else (case copyFileSync e ds targetDir f of
                 Some msg \<Rightarrow> \<lparr>rfile = f, success = False, bin = None, error = Some msg\<rparr>
               | None \<Rightarrow> \<lparr>rfile = f, success = True, bin = Some b, error = None\<rparr>))"

definition workerProcess :: "env \<Rightarrow> path list \<Rightarrow> string list \<Rightarrow> result list" where
  "workerProcess e ds fileBatch = map (process_file e ds) fileBatch"

section \<open>partitionExtensionFiles: the handlers of one worker\<close>

text \<open>\<^verbatim>\<open>if (!binSizes[k]) binSizes[k] = 0; binSizes[k]++\<close> on an object whose keys keep
  their insertion order.\<close>

definition count_bin :: "string \<Rightarrow> (string \<times> nat) list \<Rightarrow> (string \<times> nat) list" where
  "count_bin k bs =
     (let bs1 = (case map_of bs k of
                   None \<Rightarrow> AList.update k 0 bs
                 | Some c \<Rightarrow> if c = 0 then AList.update k 0 bs else bs)
      in AList.update k (Suc (case map_of bs1 k of None \<Rightarrow> 0 | Some c \<Rightarrow> c)) bs1)"

text \<open>The body of \<^verbatim>\<open>for (const result of results)\<close>. A successful result without a
  \<^verbatim>\<open>bin\<close> would count under the key \<^verbatim>\<open>undefined\<close>.\<close>

definition consume :: "env \<Rightarrow> result \<Rightarrow> state \<Rightarrow> state" where
  "consume e r st =
     (if success r
      then markFileProcessed e (rfile r)
             (st\<lparr>binSizes := count_bin (case bin r of Some b \<Rightarrow> b | None \<Rightarrow> ''undefined'') (binSizes st),
                 processed := processed st + 1\<rparr>)
      else st\<lparr>console := console st @
                  [ErrorProcessingFile (rfile r) (case error r of Some m \<Rightarrow> m | None \<Rightarrow> ''undefined'')],
               errors := errors st + 1\<rparr>)"

text \<open>\<^verbatim>\<open>worker.on('message', ...)\<close>: an error object counts the whole batch as errors;
  a result array is consumed entry by entry. Both resolve the worker's promise.\<close>

definition on_message :: "env \<Rightarrow> string list \<Rightarrow> worker_msg \<Rightarrow> state \<Rightarrow> state \<times> settle" where
  "on_message e fileBatch m st =
     (case m of
        ErrorObject msg \<Rightarrow>
          (st\<lparr>console := console st @ [WorkerErrorObject msg],
              errors := errors st + length fileBatch\<rparr>, Resolved)
      | Results rs \<Rightarrow> (fold (consume e) rs st, Resolved))"

text \<open>\<^verbatim>\<open>worker.on('error', ...)\<close> counts the batch and rejects.\<close>

definition on_error :: "string list \<Rightarrow> string \<Rightarrow> state \<Rightarrow> state \<times> settle" where
  "on_error fileBatch err st =
     (st\<lparr>console := console st @ [WorkerErrorEvent err],
         errors := errors st + length fileBatch\<rparr>, Rejected)"

text \<open>\<^verbatim>\<open>worker.on('exit', ...)\<close> logs and rejects on a non-zero code and does nothing
  else.\<close>

definition on_exit :: "nat \<Rightarrow> state \<Rightarrow> state \<times> settle" where
  "on_exit code st =
     (if code \<noteq> 0 then (st\<lparr>console := console st @ [WorkerExitedNonZero code]\<rparr>, Rejected)
      else (st, Pending))"

text \<open>A promise keeps its first settlement.\<close>

definition settle_first :: "settle \<Rightarrow> settle \<Rightarrow> settle" where
  "settle_first a b = (if a = Pending then b else a)"

text \<open>The events of a worker in the order Node emits them: the message, then
  \<^verbatim>\<open>'exit'\<close> with code 0; or \<^verbatim>\<open>'error'\<close>, then \<^verbatim>\<open>'exit'\<close> with code 1.\<close>

definition events_of :: "worker_fate \<Rightarrow> worker_event list" where
  "events_of w =
     (case w of
        Posts \<Rightarrow> [PostedResults, Exited 0]
      | PostsError msg \<Rightarrow> [PostedError msg, Exited 0]
      | ErrorEvent err \<Rightarrow> [EmittedError err, Exited 1])"

text \<open>The handler that runs for an event of the worker of \<open>fileBatch\<close>, and what it does
  to the worker's promise.\<close>

definition handle :: "env \<Rightarrow> path list \<Rightarrow> string list \<Rightarrow> worker_event \<Rightarrow> state \<Rightarrow> state \<times> settle" where
  "handle e ds fileBatch ev st =
     (case ev of
        PostedResults \<Rightarrow> on_message e fileBatch (Results (workerProcess e ds fileBatch)) st
      | PostedError msg \<Rightarrow> on_message e fileBatch (ErrorObject msg) st
      | EmittedError err \<Rightarrow> on_error fileBatch err st
      | Exited code \<Rightarrow> on_exit code st)"

text \<open>The events of one worker are handled one after the other while the round is
  awaited. \<open>p\<close> is the worker's promise so far. The event that rejects the promise is
  the last one handled here: \<^verbatim>\<open>Promise.all\<close> rejects with it, and the events after it
  are returned undelivered.\<close>

fun deliver ::
  "env \<Rightarrow> path list \<Rightarrow> string list \<Rightarrow> settle \<Rightarrow> worker_event list \<Rightarrow> state \<Rightarrow>
     state \<times> settle \<times> worker_event list" where
  "deliver e ds fileBatch p [] st = (st, p, [])"
| "deliver e ds fileBatch p (ev # evs) st =
     (let (st1, s) = handle e ds fileBatch ev st;
          p1 = settle_first p s
      in if p1 = Rejected then (st1, Rejected, evs)
         else deliver e ds fileBatch p1 evs st1)"

definition run_worker ::
  "env \<Rightarrow> path list \<Rightarrow> string list \<Rightarrow> state \<Rightarrow> state \<times> settle \<times> worker_event list" where
  "run_worker e ds fileBatch st = deliver e ds fileBatch Pending (events_of (fate e fileBatch)) st"


section \<open>partitionExtensionFiles: rounds\<close>

text \<open>The inner \<^verbatim>\<open>for\<close> loop: worker \<open>w\<close> of the round that starts at index \<open>i\<close> gets
  \<^verbatim>\<open>filesToProcess.slice(startIdx, endIdx)\<close>; the loop stops at the first \<open>w\<close> whose
  start index is past the end.\<close>

definition round_batches :: "env \<Rightarrow> string list \<Rightarrow> nat \<Rightarrow> string list list" where
  "round_batches e filesToProcess i =
     map (\<lambda>w. let startIdx = i + w * BATCH_SIZE;
                   endIdx = min (startIdx + BATCH_SIZE) (length filesToProcess)
               in slice filesToProcess startIdx endIdx)
       (takeWhile (\<lambda>w. i + w * BATCH_SIZE < length filesToProcess) [0..<MAX_WORKERS e])"

text \<open>\<^verbatim>\<open>Promise.all\<close> rejects when one promise rejects, resolves when all have resolved,
  and stays pending otherwise.\<close>

definition promise_all :: "settle list \<Rightarrow> settle" where
  "promise_all ss =
     (if Rejected \<in> set ss then Rejected
      else if Pending \<in> set ss then Pending
      else Resolved)"

text \<open>The workers of one round while \<^verbatim>\<open>Promise.all\<close> is awaited, their events taken
  worker after worker. At the first promise that rejects \<^verbatim>\<open>Promise.all\<close> rejects and the
  \<^verbatim>\<open>await\<close> is over: the promises of the workers behind it are still pending, and the
  remaining event of the rejecting worker and all events of the workers behind it
  are still to come.\<close>

fun run_workers ::
  "env \<Rightarrow> path list \<Rightarrow> string list list \<Rightarrow> state \<Rightarrow>
     state \<times> settle list \<times> (string list \<times> worker_event) list" where
  "run_workers e ds [] st = (st, [], [])"
| "run_workers e ds (b # bs) st =
     (let (st1, s, rest) = run_worker e ds b st
      in if s = Rejected
         then (st1, Rejected # map (\<lambda>b'. Pending) bs,
               map (Pair b) rest @
                 concat (map (\<lambda>b'. map (Pair b') (events_of (fate e b'))) bs))
         else (let (st2, ss, late) = run_workers e ds bs st1 in (st2, s # ss, late)))"

text \<open>Events left over from an earlier round reach their handlers during a later
  \<^verbatim>\<open>await\<close>. The handlers change the counters, the console and the progress object as
  always; the promise they settle belongs to a round that is over.\<close>

definition drain :: "env \<Rightarrow> path list \<Rightarrow> state \<Rightarrow> state" where
  "drain e ds st =
     fold (\<lambda>(b, ev) s. fst (handle e ds b ev s)) (undelivered st) (st\<lparr>undelivered := []\<rparr>)"

text \<open>One pass of the outer \<^verbatim>\<open>for\<close> loop. The inner loop creates the workers of the
  round; during the \<^verbatim>\<open>await\<close> the events left over from earlier rounds come in first,
  then those of the round's own workers. When \<^verbatim>\<open>Promise.all\<close> resolves the progress is
  saved. When it rejects the \<^verbatim>\<open>catch\<close> logs at once and the loop goes on, the events
  not yet handled left for later. When it stays pending the run never continues
  (\<open>None\<close>). The rate and ETA lines of the reporter only write to the console and are
  left out.\<close>

definition process_round :: "env \<Rightarrow> path list \<Rightarrow> string list \<Rightarrow> nat \<Rightarrow> state \<Rightarrow> state option" where
  "process_round e ds filesToProcess i st =
     (let bs = round_batches e filesToProcess i;
          st0 = drain e ds (st\<lparr>spawned := spawned st @ bs\<rparr>);
          (st1, ss, late) = run_workers e ds bs st0
      in case promise_all ss of
           Resolved \<Rightarrow> Some (ProgressTracker_save e st1)
         | Rejected \<Rightarrow>
             Some (st1\<lparr>console := console st1 @ [ErrorProcessingBatch], undelivered := late\<rparr>)
         | Pending \<Rightarrow> None)"

function rounds :: "env \<Rightarrow> path list \<Rightarrow> string list \<Rightarrow> nat \<Rightarrow> state \<Rightarrow> state option" where
  "rounds e ds filesToProcess i st =
     (if i < length filesToProcess
      then (case process_round e ds filesToProcess i st of
              None \<Rightarrow> None
            | Some st1 \<Rightarrow> rounds e ds filesToProcess (i + BATCH_SIZE * MAX_WORKERS e) st1)
      else Some st)"
  by pat_completeness auto
termination
  by (relation "measure (\<lambda>(e, ds, fs, i, st). length fs - i)")
     (auto simp: BATCH_SIZE_def MAX_WORKERS_def)

declare rounds.simps [simp del]

definition jsonFiles_of :: "string list \<Rightarrow> string list" where
  "jsonFiles_of files = filter (\<lambda>f. toLowerCase (extname f) = ''.json'') files"

definition filesToProcess_of :: "progress \<Rightarrow> string list \<Rightarrow> string list" where
  "filesToProcess_of p jsonFiles = filter (\<lambda>f. \<not> isFileProcessed p f) jsonFiles"

text \<open>\<^verbatim>\<open>partitionExtensionFiles(progress)\<close> on the main thread; \<open>obj\<close> is the object
  \<^verbatim>\<open>load\<close> returned and \<open>progress st\<close> its typed reading. A missing source directory
  and a progress object without \<^verbatim>\<open>processedFiles\<close> (a \<^verbatim>\<open>TypeError\<close> at the first read)
  both end in the outer \<^verbatim>\<open>catch\<close>. With nothing to process the function returns at once;
  otherwise the counters start at zero, the rounds run, and the progress is saved a
  last time.\<close>

definition partitionExtensionFiles :: "env \<Rightarrow> path list \<Rightarrow> pobj \<Rightarrow> state \<Rightarrow> state option" where
  "partitionExtensionFiles e ds obj st =
     (if \<not> sourceDirExists e
      then Some (st\<lparr>console := console st @ [FailedToPartition ''Source directory does not exist!'']\<rparr>)
      else (case o_processedFiles obj of
              None \<Rightarrow> Some (st\<lparr>console := console st @ [FailedToPartition ''TypeError'']\<rparr>)
            | Some pf \<Rightarrow>
                (let filesToProcess = filesToProcess_of (progress st) (jsonFiles_of (listing e))
                 in if length filesToProcess = 0 then Some st
                    else (case rounds e ds filesToProcess 0
                                 (st\<lparr>processed := 0, errors := 0, binSizes := []\<rparr>) of
                            None \<Rightarrow> None
                          | Some st1 \<Rightarrow> Some (drain e ds (ProgressTracker_save e st1))))))"

text \<open>\<^verbatim>\<open>calculateBinSizes\<close> reads the bins and, unless the flag is already set, sets
  \<^verbatim>\<open>binSizesCalculated\<close> and saves; it does not touch \<^verbatim>\<open>processedFiles\<close>. The sizes it
  prints are left out.\<close>

definition calculateBinSizes :: "env \<Rightarrow> pobj \<Rightarrow> state \<Rightarrow> state" where
  "calculateBinSizes e obj st =
     (if binSizesCalculated (progress st) = Some True then st
      else (case o_processedFiles obj of
              Some pf \<Rightarrow>
                ProgressTracker_save e
                  (st\<lparr>progress := (progress st)\<lparr>binSizesCalculated := Some True\<rparr>\<rparr>)
            | None \<Rightarrow>
                writeFile e
                  (obj\<lparr>o_binSizesCalculated := Some True,
                       o_lastUpdate := Some (clock e (length (saves st)))\<rparr>) st))"

datatype run_end = Finished state | Exit1 "console_line list" | Hangs

text \<open>The state \<^verbatim>\<open>main\<close> starts from. When the loaded object has no \<^verbatim>\<open>processedFiles\<close>
  the list of \<open>progress\<close> is never read: every read is behind the \<^verbatim>\<open>TypeError\<close> branch.\<close>

definition initial_state :: "pobj ckpt \<Rightarrow> console_line list \<Rightarrow> pobj \<Rightarrow> state" where
  "initial_state d c obj =
     \<lparr>progress = of_json obj (case o_processedFiles obj of Some pf \<Rightarrow> pf | None \<Rightarrow> []),
      disk = d, saves = [], console = c, processed = 0, errors = 0, binSizes = [],
      spawned = [], undelivered = []\<rparr>"

text \<open>\<^verbatim>\<open>main\<close>: load, create the bins, partition, calculate the sizes. A loaded
  \<^verbatim>\<open>null\<close> throws at \<^verbatim>\<open>progress.lastUpdate\<close> and ends the process with exit code 1.\<close>

definition main :: "env \<Rightarrow> pobj ckpt \<Rightarrow> run_end" where
  "main e d =
     (case ProgressTracker_load (clock e 0) d of
        (LNull, c) \<Rightarrow> Exit1 (c @ [CriticalError ''TypeError''])
      | (LObj obj, c) \<Rightarrow>
          (case partitionExtensionFiles e (createBinDirectories (dirs e)) obj
                  (initial_state d c obj) of
             None \<Rightarrow> Hangs
           | Some st \<Rightarrow> Finished (calculateBinSizes e obj st)))"

section \<open>drive-upload.js\<close>

record upload_progress =
  uploaded :: nat
  failed :: nat
  total :: nat
  completedFiles :: "string list"
  mutex :: bool

text \<open>Why \<^verbatim>\<open>processAndUploadFile\<close> can throw: reading the file, parsing it, or the
  upload stream.\<close>

datatype upload_fault = ReadError | ParseError | UploadError

datatype upload_line =
    ErrorLoadingProgressFile
  | ErrorParsingJson string
  | FailedToUpload string
  | ErrorSavingProgressFile
  | TransferFailed
  | ScanFailed

text \<open>What the upload script reads from outside: the relative paths of the \<^verbatim>\<open>.json\<close>
  files found by \<^verbatim>\<open>getFilesRecursively\<close> (\<open>None\<close> when the scan throws), the fault of a
  file if it has one, and whether the n-th write of the progress file succeeds. A file
  is named by its path relative to the directory, as \<^verbatim>\<open>path.relative\<close> gives it.\<close>

record upload_env =
  allFiles :: "string list option"
  fault :: "string \<Rightarrow> upload_fault option"
  saveOk :: "nat \<Rightarrow> bool"

record upload_state =
  shared :: upload_progress
  file_on_disk :: "string list option ckpt"
  saved :: "string list list"
  out :: "upload_line list"
  started :: "string list"
  bucket :: "string list"

definition MAX_CONCURRENT_UPLOADS :: nat where
  "MAX_CONCURRENT_UPLOADS = 30"

text \<open>The start of \<^verbatim>\<open>uploadDirectoryWithTransferManager\<close>:
  \<^verbatim>\<open>progressData.completedFiles || []\<close> inside a \<^verbatim>\<open>try\<close> whose \<^verbatim>\<open>catch\<close> logs and takes the
  empty list. Reading a property of \<^verbatim>\<open>null\<close> throws.\<close>

definition load_completedFiles :: "string list option ckpt \<Rightarrow> string list \<times> upload_line list" where
  "load_completedFiles d =
     (case d of
        Absent \<Rightarrow> ([], [])
      | Unreadable \<Rightarrow> ([], [ErrorLoadingProgressFile])
      | Corrupt \<Rightarrow> ([], [ErrorLoadingProgressFile])
      | ParsedNull \<Rightarrow> ([], [ErrorLoadingProgressFile])
      | Parsed None \<Rightarrow> ([], [])
      | Parsed (Some cf) \<Rightarrow> (cf, []))"

definition filesToUpload_of :: "string list \<Rightarrow> string list \<Rightarrow> string list" where
  "filesToUpload_of completed files = filter (\<lambda>relativePath. relativePath \<notin> set completed) files"

text \<open>The two update functions handed to \<^verbatim>\<open>updateProgressAtomic\<close>.\<close>

definition push_completed :: "string \<Rightarrow> upload_progress \<Rightarrow> upload_progress" where
  "push_completed relativePath p =
     (if relativePath \<notin> set (completedFiles p)
      then p\<lparr>completedFiles := completedFiles p @ [relativePath]\<rparr> else p)"

definition count_uploaded :: "upload_progress \<Rightarrow> upload_progress" where
  "count_uploaded p = p\<lparr>uploaded := uploaded p + 1\<rparr>"

definition mark_completed :: "string \<Rightarrow> upload_progress \<Rightarrow> upload_progress" where
  "mark_completed relativePath p = count_uploaded (push_completed relativePath p)"

definition count_failed :: "upload_progress \<Rightarrow> upload_progress" where
  "count_failed p = p\<lparr>failed := failed p + 1\<rparr>"

text \<open>\<^verbatim>\<open>updateProgressAtomic\<close> when nothing else runs in between: with the flag free it
  takes it, runs the update and releases it; called with the flag taken and nobody
  left to release it, the polling loop never ends (\<open>None\<close>).\<close>

definition updateProgressAtomic ::
  "(upload_progress \<Rightarrow> upload_progress) \<Rightarrow> upload_progress \<Rightarrow> upload_progress option" where
  "updateProgressAtomic updateFn p =
     (if mutex p then None
      else Some ((updateFn (p\<lparr>mutex := True\<rparr>))\<lparr>mutex := False\<rparr>))"

text \<open>\<^verbatim>\<open>processAndUploadFile\<close>: a file without fault is uploaded and marked completed,
  and its promise resolves; a fault is counted, logged and thrown again, so the
  promise rejects.\<close>

definition processAndUploadFile ::
  "upload_env \<Rightarrow> string \<Rightarrow> upload_state \<Rightarrow> (upload_state \<times> settle) option" where
  "processAndUploadFile e relativePath st0 =
     (let st = st0\<lparr>started := started st0 @ [relativePath]\<rparr>
      in case fault e relativePath of
           None \<Rightarrow>
             (case updateProgressAtomic (mark_completed relativePath) (shared st) of
                None \<Rightarrow> None
              | Some p \<Rightarrow> Some (st\<lparr>shared := p, bucket := bucket st @ [relativePath]\<rparr>, Resolved))
         | Some flt \<Rightarrow>
             (case updateProgressAtomic count_failed (shared st) of
                None \<Rightarrow> None
              | Some p \<Rightarrow>
                  Some (st\<lparr>shared := p,
                           out := out st @
                             (if flt = ParseError then [ErrorParsingJson relativePath] else []) @
                             [FailedToUpload relativePath]\<rparr>, Rejected)))"

text \<open>\<^verbatim>\<open>batch.map(filePath => processAndUploadFile(filePath, progress))\<close>: every upload of
  the batch is started and runs to its end, whatever the others do.\<close>

fun upload_batch ::
  "upload_env \<Rightarrow> string list \<Rightarrow> upload_state \<Rightarrow> (upload_state \<times> settle list) option" where
  "upload_batch e [] st = Some (st, [])"
| "upload_batch e (f # fs) st =
     (case processAndUploadFile e f st of
        None \<Rightarrow> None
      | Some (st1, s) \<Rightarrow>
          (case upload_batch e fs st1 of
             None \<Rightarrow> None
           | Some (st2, ss) \<Rightarrow> Some (st2, s # ss)))"

definition saveProgress :: "upload_env \<Rightarrow> upload_state \<Rightarrow> upload_state" where
  "saveProgress e st =
     (let n = length (saved st);
          st1 = st\<lparr>saved := saved st @ [completedFiles (shared st)]\<rparr>
      in if saveOk e n then st1\<lparr>file_on_disk := Parsed (Some (completedFiles (shared st)))\<rparr>
         else st1\<lparr>out := out st1 @ [ErrorSavingProgressFile]\<rparr>)"

text \<open>The \<^verbatim>\<open>for\<close> loop over batches inside the \<^verbatim>\<open>try\<close>: a batch whose \<^verbatim>\<open>Promise.all\<close>
  resolves is followed by \<^verbatim>\<open>saveProgress\<close> and the next batch; a rejection leaves the
  loop for the \<^verbatim>\<open>catch\<close>, which logs \<^verbatim>\<open>Transfer failed\<close>, and the function returns.\<close>

function upload_rounds ::
  "upload_env \<Rightarrow> string list \<Rightarrow> nat \<Rightarrow> upload_state \<Rightarrow> upload_state option" where
  "upload_rounds e filesToUpload i st =
     (if i < length filesToUpload
      then (case upload_batch e (slice filesToUpload i (i + MAX_CONCURRENT_UPLOADS)) st of
              None \<Rightarrow> None
            | Some (st1, ss) \<Rightarrow>
                (case promise_all ss of
                   Resolved \<Rightarrow>
                     upload_rounds e filesToUpload (i + MAX_CONCURRENT_UPLOADS) (saveProgress e st1)
                 | Rejected \<Rightarrow> Some (st1\<lparr>out := out st1 @ [TransferFailed]\<rparr>)
                 | Pending \<Rightarrow> None))
      else Some st)"
  by pat_completeness auto
termination
  by (relation "measure (\<lambda>(e, fs, i, st). length fs - i)")
     (auto simp: MAX_CONCURRENT_UPLOADS_def)

declare upload_rounds.simps [simp del]

definition uploadDirectoryWithTransferManager ::
  "upload_env \<Rightarrow> string list option ckpt \<Rightarrow> upload_state option" where
  "uploadDirectoryWithTransferManager e d =
     (let (completed, lines) = load_completedFiles d;
          st = \<lparr>shared = \<lparr>uploaded = 0, failed = 0, total = 0, completedFiles = completed,
                          mutex = False\<rparr>,
                file_on_disk = d, saved = [], out = lines, started = [], bucket = []\<rparr>
      in case allFiles e of
           None \<Rightarrow> Some (st\<lparr>out := out st @ [ScanFailed]\<rparr>)
         | Some files \<Rightarrow>
             (let filesToUpload = filesToUpload_of completed files
              in upload_rounds e filesToUpload 0
                   (st\<lparr>shared := (shared st)\<lparr>total := length filesToUpload\<rparr>\<rparr>)))"


section \<open>updateProgressAtomic under interleaving\<close>

text \<open>
  The uploads of a batch run as promises on one event loop: code between two
  \<^verbatim>\<open>await\<close>s runs without interruption, and at an \<^verbatim>\<open>await\<close> any other promise may go
  on. A call of \<^verbatim>\<open>updateProgressAtomic\<close> is therefore a small machine. From \<open>Called\<close>
  or \<open>Sleeping\<close> it tests the flag: taken, it sleeps 10 ms and tests again; free, it
  takes it (\<open>Acquired\<close>). Then the update function runs (for a completed upload the
  push, \<open>Pushed\<close>, then the counter) and the call waits for its promise (\<open>Updated\<close>). The
  \<^verbatim>\<open>finally\<close> clears the flag (\<open>Returned\<close>). Node runs the test, the assignment and the
  whole update function in one go; the machine lets other callers step between them
  as well, so its schedules include every interleaving Node can produce.
\<close>

datatype pc = Called | Sleeping | Acquired | Pushed | Updated | Returned

datatype job = MarkCompleted string | CountFailed

record caller =
  at :: pc
  job :: job

record machine =
  mem :: upload_progress
  callers :: "caller list"

definition try_acquire :: "nat \<Rightarrow> machine \<Rightarrow> machine" where
  "try_acquire i s =
     (if mutex (mem s)
      then s\<lparr>callers := (callers s)[i := (callers s ! i)\<lparr>at := Sleeping\<rparr>]\<rparr>
      else s\<lparr>mem := (mem s)\<lparr>mutex := True\<rparr>,
             callers := (callers s)[i := (callers s ! i)\<lparr>at := Acquired\<rparr>]\<rparr>)"

text \<open>Caller \<open>i\<close> runs up to its next suspension point.\<close>

definition step :: "nat \<Rightarrow> machine \<Rightarrow> machine" where
  "step i s =
     (if i < length (callers s)
      then (let c = callers s ! i
            in case at c of
                 Called \<Rightarrow> try_acquire i s
               | Sleeping \<Rightarrow> try_acquire i s
               | Acquired \<Rightarrow>
                   (case job c of
                      MarkCompleted relativePath \<Rightarrow>
                        s\<lparr>mem := push_completed relativePath (mem s),
                          callers := (callers s)[i := c\<lparr>at := Pushed\<rparr>]\<rparr>
                    | CountFailed \<Rightarrow>
                        s\<lparr>mem := count_failed (mem s),
                          callers := (callers s)[i := c\<lparr>at := Updated\<rparr>]\<rparr>)
               | Pushed \<Rightarrow>
                   s\<lparr>mem := count_uploaded (mem s),
                     callers := (callers s)[i := c\<lparr>at := Updated\<rparr>]\<rparr>
               | Updated \<Rightarrow>
                   s\<lparr>mem := (mem s)\<lparr>mutex := False\<rparr>,
                     callers := (callers s)[i := c\<lparr>at := Returned\<rparr>]\<rparr>
               | Returned \<Rightarrow> s)
      else s)"

text \<open>An interleaving is the list of callers in the order they get to run.\<close>

definition interleave :: "nat list \<Rightarrow> machine \<Rightarrow> machine" where
  "interleave schedule s = fold step schedule s"

definition start :: "upload_progress \<Rightarrow> job list \<Rightarrow> machine" where
  "start p jobs = \<lparr>mem = p, callers = map (\<lambda>j. \<lparr>at = Called, job = j\<rparr>) jobs\<rparr>"

text \<open>A caller is inside while it holds the flag; its update has been applied once it is
  \<open>Updated\<close> or \<open>Returned\<close>.\<close>

definition inside :: "caller \<Rightarrow> bool" where
  "inside c = (at c = Acquired \<or> at c = Pushed \<or> at c = Updated)"

definition applied :: "caller \<Rightarrow> bool" where
  "applied c = (at c = Updated \<or> at c = Returned)"

definition has_pushed :: "caller \<Rightarrow> bool" where
  "has_pushed c = (at c = Pushed \<or> applied c)"

definition is_mark :: "caller \<Rightarrow> bool" where
  "is_mark c = (case job c of MarkCompleted r \<Rightarrow> True | CountFailed \<Rightarrow> False)"

definition count_where :: "(caller \<Rightarrow> bool) \<Rightarrow> machine \<Rightarrow> nat" where
  "count_where P s = length (filter P (callers s))"

text \<open>The paths whose push has been made.\<close>

definition pushed_paths :: "machine \<Rightarrow> string set" where
  "pushed_paths s =
     {r. \<exists>j < length (callers s). job (callers s ! j) = MarkCompleted r \<and> has_pushed (callers s ! j)}"

text \<open>What holds of the machine at every moment, for the memory \<open>p\<close> and the jobs it
  started with: the flag is taken exactly when one caller is inside, and never by two;
  only a completed upload passes through \<open>Pushed\<close>; the two counters count the
  updates applied so far; the list holds the paths pushed so far.\<close>

definition serialized :: "upload_progress \<Rightarrow> job list \<Rightarrow> machine \<Rightarrow> bool" where
  "serialized p jobs s =
     (map job (callers s) = jobs \<and>
      count_where inside s = (if mutex (mem s) then 1 else 0) \<and>
      (\<forall>j < length (callers s). at (callers s ! j) = Pushed \<longrightarrow> is_mark (callers s ! j)) \<and>
      uploaded (mem s) = uploaded p + count_where (\<lambda>c. is_mark c \<and> applied c) s \<and>
      failed (mem s) = failed p + count_where (\<lambda>c. \<not> is_mark c \<and> applied c) s \<and>
      set (completedFiles (mem s)) = set (completedFiles p) \<union> pushed_paths s)"


section \<open>What a later run reads back\<close>

text \<open>The completed set a later run gets from a checkpoint file: the list of
  \<^verbatim>\<open>processedFiles\<close> (\<^verbatim>\<open>completedFiles\<close> for the upload script) when the file parses and has
  one, nothing otherwise.\<close>

definition persisted :: "pobj ckpt \<Rightarrow> string set" where
  "persisted d =
     (case d of
        Parsed obj \<Rightarrow> (case o_processedFiles obj of Some pf \<Rightarrow> set pf | None \<Rightarrow> {})
      | _ \<Rightarrow> {})"

definition persisted_uploads :: "string list option ckpt \<Rightarrow> string set" where
  "persisted_uploads d = set (fst (load_completedFiles d))"


section \<open>Conditions on the environment and concrete runs\<close>

text \<open>The promise of the worker for a batch, read off its fate.\<close>

definition settle_of :: "worker_fate \<Rightarrow> settle" where
  "settle_of w =
     (case w of
        Posts \<Rightarrow> Resolved
      | PostsError msg \<Rightarrow> Resolved
      | ErrorEvent err \<Rightarrow> Rejected)"

text \<open>A small source directory: one file that fits a bin, one whose prefix has no bin,
  and one that is not JSON. Every worker posts and every write succeeds.\<close>

definition demo_env :: env where
  "demo_env =
     \<lparr>cpus = 2, sourceDirExists = True, listing = [''aab.json'', ''zz.json'', ''notes.txt''],
      dirs = [], srcPresent = (\<lambda>f. True), copyFault = (\<lambda>f. None), fate = (\<lambda>b. Posts),
      writeOk = (\<lambda>n. True), clock = (\<lambda>n. n)\<rparr>"


text \<open>A larger directory: \<^verbatim>\<open>zz.json\<close>, which has no bin, and 200 files of bin \<^verbatim>\<open>aa\<close>.
  With three CPUs there are two workers, so the first round has two batches of 100
  files and the second round one batch of one file. The worker for the second batch
  of the first round emits \<^verbatim>\<open>'error'\<close>.\<close>

definition many_files :: "string list" where
  "many_files =
     ''zz.json'' #
       take 200 (concat (map (\<lambda>x. map (\<lambda>y. ''aa'' @ [x, y] @ ''.json'') chars) chars))"

definition demo_crash_env :: env where
  "demo_crash_env =
     demo_env\<lparr>cpus := 3, listing := many_files,
       fate := (\<lambda>b. if length b = 100 \<and> hd b \<noteq> ''zz.json''
                     then ErrorEvent ''out of memory'' else Posts)\<rparr>"

text \<open>Thirty-one uploads, the first of which cannot be parsed.\<close>

definition thirty_one_files :: "string list" where
  "thirty_one_files =
     ''bad.json'' #
       take 30 (concat (map (\<lambda>x. map (\<lambda>y. [x, y] @ ''.json'') chars) chars))"

definition demo_abort_env :: upload_env where
  "demo_abort_env =
     \<lparr>allFiles = Some thirty_one_files,
      fault = (\<lambda>f. if f = ''bad.json'' then Some ParseError else None),
      saveOk = (\<lambda>n. True)\<rparr>"

definition demo_obj :: pobj where
  "demo_obj =
     \<lparr>o_binsCreated = Some False, o_processedFiles = Some [''aab.json''],
      o_binSizesCalculated = Some False, o_lastUpdate = Some 0\<rparr>"

text \<open>The checkpoint \<^verbatim>\<open>{}\<close>: valid JSON, an object, no field.\<close>

definition empty_obj :: pobj where
  "empty_obj =
     \<lparr>o_binsCreated = None, o_processedFiles = None, o_binSizesCalculated = None,
      o_lastUpdate = None\<rparr>"

definition demo_state :: state where
  "demo_state = initial_state (Parsed demo_obj) [] demo_obj"

definition demo_dirs :: "path list" where
  "demo_dirs = [[''partitioned_extensions''], [''partitioned_extensions'', ''aa'']]"

definition demo_upload_env :: upload_env where
  "demo_upload_env =
     \<lparr>allFiles = Some [''a.json'', ''b.json'', ''sub/c.json''], fault = (\<lambda>f. None),
      saveOk = (\<lambda>n. True)\<rparr>"

text \<open>The same uploads, with an upload stream that fails for \<^verbatim>\<open>b.json\<close>.\<close>

definition demo_faulty_env :: upload_env where
  "demo_faulty_env =
     \<lparr>allFiles = Some [''a.json'', ''b.json'', ''sub/c.json''],
      fault = (\<lambda>f. if f = ''b.json'' then Some UploadError else None),
      saveOk = (\<lambda>n. True)\<rparr>"


definition demo_upload_progress :: upload_progress where
  "demo_upload_progress =
     \<lparr>uploaded = 0, failed = 0, total = 2, completedFiles = [''a.json''], mutex = False\<rparr>"


section \<open>Predicates of the proofs\<close>

text \<open>The checkpoint file never holds a file the progress object does not.\<close>

definition disk_ok :: "state \<Rightarrow> bool" where
  "disk_ok st = (persisted (disk st) \<subseteq> set (processedFiles (progress st)))"



text \<open>From \<open>st\<close> to \<open>s\<close> the checkpoint file has only gained files, and it still holds
  no file the progress object does not.\<close>

definition disk_grows :: "state \<Rightarrow> state \<Rightarrow> bool" where
  "disk_grows st s = (disk_ok s \<and> persisted (disk st) \<subseteq> persisted (disk s))"

text \<open>The checkpoint file holds exactly the list of the progress object.\<close>

definition synced :: "state \<Rightarrow> bool" where
  "synced st =
     (\<exists>obj. disk st = Parsed obj \<and> o_processedFiles obj = Some (processedFiles (progress st)))"

definition upload_ok :: "upload_state \<Rightarrow> bool" where
  "upload_ok st = (persisted_uploads (file_on_disk st) \<subseteq> set (completedFiles (shared st)))"

section \<open>The completed set only grows\<close>


lemma processedFiles_writeFile [simp]:
  "processedFiles (progress (writeFile e obj st)) = processedFiles (progress st)"
  by (simp add: writeFile_def Let_def)

lemma processedFiles_save [simp]:
  "processedFiles (progress (ProgressTracker_save e st)) = processedFiles (progress st)"
  by (simp add: ProgressTracker_save_def Let_def)

lemma processedFiles_mark:
  "processedFiles (progress (markFileProcessed e f st)) =
     (if f \<in> set (processedFiles (progress st)) then processedFiles (progress st)
      else processedFiles (progress st) @ [f])"
  by (simp add: markFileProcessed_def Let_def)

lemma mark_present_noop:
  "f \<in> set (processedFiles (progress st)) \<Longrightarrow> markFileProcessed e f st = st"
  by (simp add: markFileProcessed_def)

lemma processedFiles_consume:
  "processedFiles (progress (consume e r st)) =
     (if success r \<and> rfile r \<notin> set (processedFiles (progress st))
      then processedFiles (progress st) @ [rfile r] else processedFiles (progress st))"
  by (simp add: consume_def processedFiles_mark)

lemma set_fold_consume:
  "set (processedFiles (progress (fold (consume e) rs st))) =
     set (processedFiles (progress st)) \<union> {rfile r | r. r \<in> set rs \<and> success r}"
  by (induction rs arbitrary: st) (auto simp: processedFiles_consume)

lemma rfile_process_file [simp]: "rfile (process_file e ds f) = f"
  by (simp add: process_file_def Let_def split: option.splits)

lemma set_fold_consume_worker:
  "set (processedFiles (progress (fold (consume e) (workerProcess e ds b) st))) =
     set (processedFiles (progress st)) \<union> {f \<in> set b. success (process_file e ds f)}"
proof -
  have "{rfile r | r. r \<in> set (workerProcess e ds b) \<and> success r} =
        {f \<in> set b. success (process_file e ds f)}"
  proof (intro set_eqI iffI)
    fix x assume "x \<in> {rfile r | r. r \<in> set (workerProcess e ds b) \<and> success r}"
    then obtain r where "x = rfile r" "r \<in> set (workerProcess e ds b)" "success r" by blast
    then show "x \<in> {f \<in> set b. success (process_file e ds f)}"
      by (auto simp: workerProcess_def)
  next
    fix x assume "x \<in> {f \<in> set b. success (process_file e ds f)}"
    then have "process_file e ds x \<in> set (workerProcess e ds b)" "success (process_file e ds x)"
      by (simp_all add: workerProcess_def)
    then show "x \<in> {rfile r | r. r \<in> set (workerProcess e ds b) \<and> success r}"
      using rfile_process_file [of e ds x] by (metis (mono_tags, lifting) mem_Collect_eq)
  qed
  then show ?thesis by (simp add: set_fold_consume)
qed

lemma set_handle:
  "set (processedFiles (progress (fst (handle e ds b ev st)))) =
     set (processedFiles (progress st)) \<union>
       (if ev = PostedResults then {f \<in> set b. success (process_file e ds f)} else {})"
  by (simp add: handle_def on_message_def on_error_def on_exit_def set_fold_consume_worker
       split: worker_event.splits)

text \<open>Whatever every handler preserves is preserved by the delivery of events, by a
  round and by the whole loop.\<close>

lemma deliver_preserves:
  assumes h: "\<And>b ev s. P s \<Longrightarrow> P (fst (handle e ds b ev s))"
  shows "P st \<Longrightarrow> P (fst (deliver e ds b p evs st))"
proof (induction evs arbitrary: st p)
  case Nil
  then show ?case by simp
next
  case (Cons ev evs)
  obtain st1 s where hs: "handle e ds b ev st = (st1, s)" by (cases "handle e ds b ev st")
  have "P (fst (handle e ds b ev st))" using Cons.prems by (rule h)
  then have p1: "P st1" using hs by simp
  show ?case using hs p1 Cons.IH [OF p1] by (simp add: Let_def)
qed

lemma run_workers_preserves:
  assumes h: "\<And>b ev s. P s \<Longrightarrow> P (fst (handle e ds b ev s))"
  shows "P st \<Longrightarrow> P (fst (run_workers e ds bs st))"
proof (induction bs arbitrary: st)
  case Nil
  then show ?case by simp
next
  case (Cons b bs)
  obtain st1 s rest where w: "run_worker e ds b st = (st1, s, rest)"
    by (cases "run_worker e ds b st")
  have "P (fst (deliver e ds b Pending (events_of (fate e b)) st))"
    using h Cons.prems by (rule deliver_preserves [where P = P])
  then have p1: "P st1" using w by (simp add: run_worker_def)
  show ?case using w p1 Cons.IH [OF p1] by (auto simp: Let_def split: prod.splits)
qed

lemma fold_handle_preserves:
  assumes h: "\<And>b ev s. P s \<Longrightarrow> P (fst (handle e ds b ev s))"
  shows "P st \<Longrightarrow> P (fold (\<lambda>(b, ev) s. fst (handle e ds b ev s)) evs st)"
proof (induction evs arbitrary: st)
  case Nil
  then show ?case by simp
next
  case (Cons x evs)
  obtain b ev where x: "x = (b, ev)" by (cases x)
  have "P (fst (handle e ds b ev st))" using Cons.prems by (rule h)
  from Cons.IH [OF this] x show ?case by simp
qed

lemma drain_preserves:
  assumes h: "\<And>b ev s. P s \<Longrightarrow> P (fst (handle e ds b ev s))"
    and p: "P (st\<lparr>undelivered := []\<rparr>)"
  shows "P (drain e ds st)"
  unfolding drain_def using h p by (rule fold_handle_preserves [where P = P])

lemma process_round_cases:
  assumes "process_round e ds fs i st = Some st'"
  shows "\<exists>st1 ss late.
     run_workers e ds (round_batches e fs i)
       (drain e ds (st\<lparr>spawned := spawned st @ round_batches e fs i\<rparr>)) = (st1, ss, late) \<and>
     (promise_all ss = Resolved \<and> st' = ProgressTracker_save e st1 \<or>
      promise_all ss = Rejected \<and>
        st' = st1\<lparr>console := console st1 @ [ErrorProcessingBatch], undelivered := late\<rparr>)"
proof -
  obtain st1 ss late where w: "run_workers e ds (round_batches e fs i)
       (drain e ds (st\<lparr>spawned := spawned st @ round_batches e fs i\<rparr>)) = (st1, ss, late)"
    by (cases "run_workers e ds (round_batches e fs i)
       (drain e ds (st\<lparr>spawned := spawned st @ round_batches e fs i\<rparr>))")
  from assms w show ?thesis
    by (cases "promise_all ss") (auto simp: process_round_def Let_def)
qed

lemma process_round_preserves:
  assumes h: "\<And>b ev s. P s \<Longrightarrow> P (fst (handle e ds b ev s))"
    and sp: "\<And>s x. P s \<Longrightarrow> P (s\<lparr>spawned := x\<rparr>)"
    and un: "\<And>s x. P s \<Longrightarrow> P (s\<lparr>undelivered := x\<rparr>)"
    and co: "\<And>s x. P s \<Longrightarrow> P (s\<lparr>console := x\<rparr>)"
    and sv: "\<And>s. P s \<Longrightarrow> P (ProgressTracker_save e s)"
    and p: "P st" and r: "process_round e ds fs i st = Some st'"
  shows "P st'"
proof -
  let ?bs = "round_batches e fs i"
  let ?st0 = "drain e ds (st\<lparr>spawned := spawned st @ ?bs\<rparr>)"
  from process_round_cases [OF r] obtain st1 ss late where
    w: "run_workers e ds ?bs ?st0 = (st1, ss, late)" and
    c: "st' = ProgressTracker_save e st1 \<or>
        st' = st1\<lparr>console := console st1 @ [ErrorProcessingBatch], undelivered := late\<rparr>"
    by blast
  have "P (st\<lparr>spawned := spawned st @ ?bs, undelivered := []\<rparr>)"
    using un [OF sp [OF p]] by simp
  with h have p0: "P ?st0" by (rule drain_preserves [where P = P])
  with h have "P (fst (run_workers e ds ?bs ?st0))" by (rule run_workers_preserves [where P = P])
  then have p1: "P st1" using w by simp
  from c show ?thesis
  proof
    assume "st' = ProgressTracker_save e st1"
    then show ?thesis using sv [OF p1] by simp
  next
    assume "st' = st1\<lparr>console := console st1 @ [ErrorProcessingBatch], undelivered := late\<rparr>"
    then show ?thesis using un [OF co [OF p1]] by simp
  qed
qed

lemma rounds_preserves:
  assumes h: "\<And>b ev s. P s \<Longrightarrow> P (fst (handle e ds b ev s))"
    and sp: "\<And>s x. P s \<Longrightarrow> P (s\<lparr>spawned := x\<rparr>)"
    and un: "\<And>s x. P s \<Longrightarrow> P (s\<lparr>undelivered := x\<rparr>)"
    and co: "\<And>s x. P s \<Longrightarrow> P (s\<lparr>console := x\<rparr>)"
    and sv: "\<And>s. P s \<Longrightarrow> P (ProgressTracker_save e s)"
  shows "P st \<Longrightarrow> rounds e ds fs i st = Some st' \<Longrightarrow> P st'"
  using h sp un co sv
proof (induction e ds fs i st rule: rounds.induct)
  case (1 e ds fs i st)
  show ?case
  proof (cases "i < length fs")
    case True
    then obtain st1 where r: "process_round e ds fs i st = Some st1"
      and rest: "rounds e ds fs (i + BATCH_SIZE * MAX_WORKERS e) st1 = Some st'"
      using "1.prems"(2) by (subst (asm) rounds.simps) (auto split: option.splits)
    from "1.prems"(3-7) "1.prems"(1) r have p1: "P st1"
      by (rule process_round_preserves [where P = P])
    from "1.IH" [OF True r p1 rest "1.prems"(3-7)] show ?thesis .
  next
    case False
    then show ?thesis using "1.prems"(1,2) by (subst (asm) rounds.simps) simp
  qed
qed

lemma process_round_mono:
  "process_round e ds fs i st = Some st' \<Longrightarrow>
     set (processedFiles (progress st)) \<subseteq> set (processedFiles (progress st'))"
  by (rule process_round_preserves
        [where P = "\<lambda>s. set (processedFiles (progress st)) \<subseteq> set (processedFiles (progress s))"])
     (auto simp: set_handle)

lemma rounds_mono:
  "rounds e ds fs i st = Some st' \<Longrightarrow>
     set (processedFiles (progress st)) \<subseteq> set (processedFiles (progress st'))"
  by (rule rounds_preserves
        [where P = "\<lambda>s. set (processedFiles (progress st)) \<subseteq> set (processedFiles (progress s))"
           and st = st])
     (auto simp: set_handle)

lemma drain_mono:
  "set (processedFiles (progress st)) \<subseteq> set (processedFiles (progress (drain e ds st)))"
  by (rule drain_preserves
        [where P = "\<lambda>s. set (processedFiles (progress st)) \<subseteq> set (processedFiles (progress s))"])
     (auto simp: set_handle)

lemma partition_cases:
  assumes "partitionExtensionFiles e ds obj st = Some st'"
  shows "(disk st' = disk st \<and> progress st' = progress st) \<or>
     (\<exists>st1. rounds e ds (filesToProcess_of (progress st) (jsonFiles_of (listing e))) 0
               (st\<lparr>processed := 0, errors := 0, binSizes := []\<rparr>) = Some st1 \<and>
            st' = drain e ds (ProgressTracker_save e st1))"
proof (cases "sourceDirExists e")
  case False
  then show ?thesis using assms by (auto simp: partitionExtensionFiles_def)
next
  case True
  show ?thesis
  proof (cases "o_processedFiles obj")
    case None
    then show ?thesis using assms True by (auto simp: partitionExtensionFiles_def)
  next
    case (Some pf)
    show ?thesis
    proof (cases "filesToProcess_of (progress st) (jsonFiles_of (listing e)) = []")
      case True
      then show ?thesis using assms \<open>sourceDirExists e\<close> Some
        by (simp add: partitionExtensionFiles_def)
    next
      case False
      then show ?thesis using assms \<open>sourceDirExists e\<close> Some
        by (simp add: partitionExtensionFiles_def Let_def split: option.splits)
    qed
  qed
qed

lemma partition_mono:
  assumes "partitionExtensionFiles e ds obj st = Some st'"
  shows "set (processedFiles (progress st)) \<subseteq> set (processedFiles (progress st'))"
proof -
  from partition_cases [OF assms] show ?thesis
  proof
    assume "disk st' = disk st \<and> progress st' = progress st"
    then show ?thesis by simp
  next
    assume "\<exists>st1. rounds e ds (filesToProcess_of (progress st) (jsonFiles_of (listing e))) 0
               (st\<lparr>processed := 0, errors := 0, binSizes := []\<rparr>) = Some st1 \<and>
            st' = drain e ds (ProgressTracker_save e st1)"
    then obtain st1 where r: "rounds e ds (filesToProcess_of (progress st) (jsonFiles_of (listing e))) 0
               (st\<lparr>processed := 0, errors := 0, binSizes := []\<rparr>) = Some st1"
      and s: "st' = drain e ds (ProgressTracker_save e st1)" by blast
    from rounds_mono [OF r] drain_mono [of "ProgressTracker_save e st1" e ds] s
    show ?thesis by simp
  qed
qed

lemma save_disk:
  "disk_ok st \<Longrightarrow> disk_ok (ProgressTracker_save e st) \<and>
     persisted (disk st) \<subseteq> persisted (disk (ProgressTracker_save e st))"
  by (auto simp: disk_ok_def ProgressTracker_save_def writeFile_def Let_def persisted_def to_json_def)

lemma mark_disk:
  "disk_ok st \<Longrightarrow> disk_ok (markFileProcessed e f st) \<and>
     persisted (disk st) \<subseteq> persisted (disk (markFileProcessed e f st))"
proof -
  assume a: "disk_ok st"
  let ?st1 = "st\<lparr>progress := (progress st)\<lparr>processedFiles := processedFiles (progress st) @ [f]\<rparr>\<rparr>"
  have ok1: "disk_ok ?st1" using a by (auto simp: disk_ok_def)
  have d1: "disk ?st1 = disk st" by simp
  show ?thesis
    using a ok1 save_disk [OF ok1, of e] d1
    by (auto simp: markFileProcessed_def Let_def)
qed

lemma consume_disk:
  "disk_ok st \<Longrightarrow> disk_ok (consume e r st) \<and>
     persisted (disk st) \<subseteq> persisted (disk (consume e r st))"
proof -
  assume a: "disk_ok st"
  let ?st1 = "st\<lparr>binSizes := count_bin (case bin r of Some b \<Rightarrow> b | None \<Rightarrow> ''undefined'') (binSizes st),
                 processed := processed st + 1\<rparr>"
  have ok1: "disk_ok ?st1" using a by (simp add: disk_ok_def)
  show ?thesis
    using a mark_disk [OF ok1, of e "rfile r"]
    by (auto simp: consume_def disk_ok_def)
qed

lemma fold_consume_disk:
  "disk_ok st \<Longrightarrow> disk_ok (fold (consume e) rs st) \<and>
     persisted (disk st) \<subseteq> persisted (disk (fold (consume e) rs st))"
proof (induction rs arbitrary: st)
  case Nil
  then show ?case by simp
next
  case (Cons r rs)
  from consume_disk [OF Cons.prems, of e r] Cons.IH [of "consume e r st"]
  show ?case by auto
qed

lemma handle_disk:
  "disk_ok st \<Longrightarrow> disk_ok (fst (handle e ds b ev st)) \<and>
     persisted (disk st) \<subseteq> persisted (disk (fst (handle e ds b ev st)))"
proof -
  assume a: "disk_ok st"
  show ?thesis
    using a fold_consume_disk [OF a, of e "workerProcess e ds b"]
    by (auto simp: handle_def on_message_def on_error_def on_exit_def disk_ok_def
        split: worker_event.splits)
qed

lemma disk_grows_refl: "disk_ok st \<Longrightarrow> disk_grows st st"
  by (simp add: disk_grows_def)

lemma disk_grows_spawned [simp]: "disk_grows st (s\<lparr>spawned := x\<rparr>) = disk_grows st s"
  by (simp add: disk_grows_def disk_ok_def)

lemma disk_grows_undelivered [simp]: "disk_grows st (s\<lparr>undelivered := x\<rparr>) = disk_grows st s"
  by (simp add: disk_grows_def disk_ok_def)

lemma disk_grows_console [simp]: "disk_grows st (s\<lparr>console := x\<rparr>) = disk_grows st s"
  by (simp add: disk_grows_def disk_ok_def)

lemma handle_keeps_disk: "disk_grows st s \<Longrightarrow> disk_grows st (fst (handle e ds b ev s))"
  using handle_disk [of s e ds b ev] by (auto simp: disk_grows_def)

lemma save_keeps_disk: "disk_grows st s \<Longrightarrow> disk_grows st (ProgressTracker_save e s)"
  using save_disk [of s e] by (auto simp: disk_grows_def)

lemma drain_disk:
  assumes "disk_ok st"
  shows "disk_ok (drain e ds st) \<and> persisted (disk st) \<subseteq> persisted (disk (drain e ds st))"
proof -
  have "disk_grows st (drain e ds st)"
    by (rule drain_preserves [where P = "disk_grows st"])
       (simp_all add: handle_keeps_disk disk_grows_refl [OF assms])
  then show ?thesis by (simp add: disk_grows_def)
qed

lemma process_round_disk:
  assumes "disk_ok st" and "process_round e ds fs i st = Some st'"
  shows "disk_ok st' \<and> persisted (disk st) \<subseteq> persisted (disk st')"
proof -
  have "disk_grows st st'"
    by (rule process_round_preserves [where P = "disk_grows st", OF _ _ _ _ _ _ assms(2)])
       (simp_all add: handle_keeps_disk save_keeps_disk disk_grows_refl [OF assms(1)])
  then show ?thesis by (simp add: disk_grows_def)
qed

lemma rounds_disk:
  assumes "disk_ok st" and "rounds e ds fs i st = Some st'"
  shows "disk_ok st' \<and> persisted (disk st) \<subseteq> persisted (disk st')"
proof -
  have "disk_grows st st'"
    by (rule rounds_preserves [where P = "disk_grows st", OF _ _ _ _ _ _ assms(2)])
       (simp_all add: handle_keeps_disk save_keeps_disk disk_grows_refl [OF assms(1)])
  then show ?thesis by (simp add: disk_grows_def)
qed

lemma partition_disk:
  assumes "disk_ok st" and "partitionExtensionFiles e ds obj st = Some st'"
  shows "disk_ok st' \<and> persisted (disk st) \<subseteq> persisted (disk st')"
proof -
  let ?fs = "filesToProcess_of (progress st) (jsonFiles_of (listing e))"
  let ?st0 = "st\<lparr>processed := 0, errors := 0, binSizes := []\<rparr>"
  have ok0: "disk_ok ?st0" using assms(1) by (simp add: disk_ok_def)
  from partition_cases [OF assms(2)] show ?thesis
  proof
    assume "disk st' = disk st \<and> progress st' = progress st"
    then show ?thesis using assms(1) by (simp add: disk_ok_def)
  next
    assume "\<exists>st1. rounds e ds ?fs 0 ?st0 = Some st1 \<and> st' = drain e ds (ProgressTracker_save e st1)"
    then obtain st1 where r: "rounds e ds ?fs 0 ?st0 = Some st1"
      and s: "st' = drain e ds (ProgressTracker_save e st1)" by blast
    from rounds_disk [OF ok0 r]
    have a: "disk_ok st1" and b: "persisted (disk st) \<subseteq> persisted (disk st1)" by auto
    from save_disk [OF a, of e]
    have c: "disk_ok (ProgressTracker_save e st1)"
      and d: "persisted (disk st1) \<subseteq> persisted (disk (ProgressTracker_save e st1))" by auto
    from drain_disk [OF c, of e ds] b d s show ?thesis by auto
  qed
qed

lemma main_disk:
  assumes "main e d = Finished st"
  shows "persisted d \<subseteq> persisted (disk st) \<and> persisted d \<subseteq> set (processedFiles (progress st))"
proof -
  from assms obtain obj c st1 where
    l: "ProgressTracker_load (clock e 0) d = (LObj obj, c)" and
    p: "partitionExtensionFiles e (createBinDirectories (dirs e)) obj (initial_state d c obj) = Some st1" and
    s: "st = calculateBinSizes e obj st1"
    by (auto simp: main_def split: prod.splits loaded.splits option.splits)
  have ok0: "disk_ok (initial_state d c obj)"
    using l by (auto simp: disk_ok_def initial_state_def persisted_def ProgressTracker_load_def of_json_def
        split: ckpt.splits option.splits)
  have d0: "disk (initial_state d c obj) = d" by (simp add: initial_state_def)
  from partition_disk [OF ok0 p] d0
  have a: "disk_ok st1" and b: "persisted d \<subseteq> persisted (disk st1)" by auto
  have none: "o_processedFiles obj = None \<Longrightarrow> persisted d = {}"
    using l by (auto simp: persisted_def ProgressTracker_load_def default_progress_def split: ckpt.splits)
  let ?st2 = "st1\<lparr>progress := (progress st1)\<lparr>binSizesCalculated := Some True\<rparr>\<rparr>"
  have ok2: "disk_ok ?st2" using a by (simp add: disk_ok_def)
  have "disk_ok st1 \<and> persisted d \<subseteq> persisted (disk st)"
    using a b s none save_disk [OF ok2, of e]
    by (auto simp: calculateBinSizes_def split: if_splits option.splits)
  moreover have "set (processedFiles (progress st1)) = set (processedFiles (progress st))"
    using s by (auto simp: calculateBinSizes_def split: if_splits option.splits)
  ultimately show ?thesis using b a by (auto simp: disk_ok_def)
qed

lemma completedFiles_mark_completed:
  "completedFiles (mark_completed r p) =
     (if r \<in> set (completedFiles p) then completedFiles p else completedFiles p @ [r])"
  by (simp add: mark_completed_def push_completed_def count_uploaded_def)

lemma completedFiles_count_failed [simp]: "completedFiles (count_failed p) = completedFiles p"
  by (simp add: count_failed_def)

lemma process_upload_cases:
  assumes "processAndUploadFile e r st = Some (st', s)"
  shows "\<not> mutex (shared st) \<and> \<not> mutex (shared st') \<and>
         file_on_disk st' = file_on_disk st \<and> saved st' = saved st \<and>
         started st' = started st @ [r] \<and>
         (case fault e r of
            None \<Rightarrow> s = Resolved \<and> completedFiles (shared st') = completedFiles (mark_completed r (shared st))
                    \<and> uploaded (shared st') = uploaded (shared st) + 1 \<and> failed (shared st') = failed (shared st)
          | Some flt \<Rightarrow> s = Rejected \<and> completedFiles (shared st') = completedFiles (shared st)
                    \<and> uploaded (shared st') = uploaded (shared st) \<and> failed (shared st') = failed (shared st) + 1)"
  using assms
  by (auto simp: processAndUploadFile_def updateProgressAtomic_def Let_def mark_completed_def
      push_completed_def count_uploaded_def count_failed_def
      split: option.splits if_splits)

lemma process_upload_grows:
  assumes "processAndUploadFile e r st = Some (st', s)"
  shows "set (completedFiles (shared st)) \<subseteq> set (completedFiles (shared st')) \<and>
         file_on_disk st' = file_on_disk st"
  using process_upload_cases [OF assms]
  by (auto simp: completedFiles_mark_completed split: option.splits if_splits)

lemma upload_batch_grows:
  "upload_batch e fs st = Some (st', ss) \<Longrightarrow>
     set (completedFiles (shared st)) \<subseteq> set (completedFiles (shared st')) \<and>
     file_on_disk st' = file_on_disk st"
proof (induction fs arbitrary: st st' ss)
  case Nil
  then show ?case by simp
next
  case (Cons f fs)
  from Cons.prems obtain st1 s ss1 where
    a: "processAndUploadFile e f st = Some (st1, s)" and
    b: "upload_batch e fs st1 = Some (st', ss1)"
    by (auto split: option.splits prod.splits)
  from process_upload_grows [OF a] Cons.IH [OF b] show ?case by auto
qed

lemma saveProgress_grows:
  "upload_ok st \<Longrightarrow> upload_ok (saveProgress e st) \<and>
     shared (saveProgress e st) = shared st \<and>
     persisted_uploads (file_on_disk st) \<subseteq> persisted_uploads (file_on_disk (saveProgress e st))"
  by (auto simp: upload_ok_def saveProgress_def Let_def persisted_uploads_def load_completedFiles_def)

lemma upload_rounds_cases:
  assumes "upload_rounds e fs i st = Some st'" and "i < length fs"
  shows "\<exists>st1 ss. upload_batch e (slice fs i (i + MAX_CONCURRENT_UPLOADS)) st = Some (st1, ss) \<and>
           ((promise_all ss = Resolved \<and>
               upload_rounds e fs (i + MAX_CONCURRENT_UPLOADS) (saveProgress e st1) = Some st') \<or>
            (promise_all ss = Rejected \<and> st' = st1\<lparr>out := out st1 @ [TransferFailed]\<rparr>))"
  using assms
  by (subst (asm) upload_rounds.simps) (auto split: option.splits prod.splits settle.splits)

lemma upload_rounds_grows:
  "upload_ok st \<Longrightarrow> upload_rounds e fs i st = Some st' \<Longrightarrow>
     upload_ok st' \<and>
     set (completedFiles (shared st)) \<subseteq> set (completedFiles (shared st')) \<and>
     persisted_uploads (file_on_disk st) \<subseteq> persisted_uploads (file_on_disk st')"
proof (induction e fs i st rule: upload_rounds.induct)
  case (1 e fs i st)
  show ?case
  proof (cases "i < length fs")
    case False
    then show ?thesis using "1.prems" by (subst (asm) upload_rounds.simps) simp
  next
    case True
    from upload_rounds_cases [OF "1.prems"(2) True] obtain st1 ss where
      b: "upload_batch e (slice fs i (i + MAX_CONCURRENT_UPLOADS)) st = Some (st1, ss)" and
      c: "(promise_all ss = Resolved \<and>
               upload_rounds e fs (i + MAX_CONCURRENT_UPLOADS) (saveProgress e st1) = Some st') \<or>
            (promise_all ss = Rejected \<and> st' = st1\<lparr>out := out st1 @ [TransferFailed]\<rparr>)"
      by blast
    from upload_batch_grows [OF b]
    have g: "set (completedFiles (shared st)) \<subseteq> set (completedFiles (shared st1))"
      and d: "file_on_disk st1 = file_on_disk st" by auto
    have ok1: "upload_ok st1" using "1.prems"(1) g d by (auto simp: upload_ok_def)
    from c show ?thesis
    proof
      assume r: "promise_all ss = Resolved \<and>
               upload_rounds e fs (i + MAX_CONCURRENT_UPLOADS) (saveProgress e st1) = Some st'"
      from saveProgress_grows [OF ok1, of e]
      have ok2: "upload_ok (saveProgress e st1)"
        and sh: "shared (saveProgress e st1) = shared st1"
        and p: "persisted_uploads (file_on_disk st1) \<subseteq> persisted_uploads (file_on_disk (saveProgress e st1))"
        by auto
      from r have pr: "promise_all ss = Resolved"
        and rr: "upload_rounds e fs (i + MAX_CONCURRENT_UPLOADS) (saveProgress e st1) = Some st'"
        by auto
      from "1.IH" [OF True b refl pr ok2 rr]
      have "upload_ok st' \<and>
         set (completedFiles (shared (saveProgress e st1))) \<subseteq> set (completedFiles (shared st')) \<and>
         persisted_uploads (file_on_disk (saveProgress e st1)) \<subseteq> persisted_uploads (file_on_disk st')"
        by simp
      then show ?thesis using g d sh p by auto
    next
      assume "promise_all ss = Rejected \<and> st' = st1\<lparr>out := out st1 @ [TransferFailed]\<rparr>"
      then show ?thesis using ok1 g d by (simp add: upload_ok_def)
    qed
  qed
qed

lemma upload_run_grows:
  assumes "uploadDirectoryWithTransferManager e d = Some st"
  shows "persisted_uploads d \<subseteq> set (completedFiles (shared st)) \<and>
         persisted_uploads d \<subseteq> persisted_uploads (file_on_disk st)"
proof (cases "allFiles e")
  case None
  then show ?thesis using assms
    by (auto simp: uploadDirectoryWithTransferManager_def persisted_uploads_def split: prod.splits)
next
  case (Some files)
  obtain completed lines where l: "load_completedFiles d = (completed, lines)"
    by (cases "load_completedFiles d")
  let ?fu = "filesToUpload_of completed files"
  let ?st0 = "\<lparr>shared = \<lparr>uploaded = 0, failed = 0, total = length ?fu, completedFiles = completed,
                          mutex = False\<rparr>,
                file_on_disk = d, saved = [], out = lines, started = [], bucket = []\<rparr>"
  have r: "upload_rounds e ?fu 0 ?st0 = Some st"
    using assms Some l by (simp add: uploadDirectoryWithTransferManager_def Let_def)
  have ok: "upload_ok ?st0" using l by (simp add: upload_ok_def persisted_uploads_def)
  from upload_rounds_grows [OF ok r] l show ?thesis
    by (auto simp: persisted_uploads_def upload_ok_def)
qed

lemma run_worker_posts:
  "fate e b = Posts \<Longrightarrow>
     run_worker e ds b st = (fold (consume e) (workerProcess e ds b) st, Resolved, [])"
  by (simp add: run_worker_def events_of_def handle_def on_message_def on_exit_def
      settle_first_def)

lemma run_worker_posts_error:
  "fate e b = PostsError msg \<Longrightarrow>
     run_worker e ds b st =
       (st\<lparr>console := console st @ [WorkerErrorObject msg],
           errors := errors st + length b\<rparr>, Resolved, [])"
  by (simp add: run_worker_def events_of_def handle_def on_message_def on_exit_def
      settle_first_def)

lemma run_worker_error:
  "fate e b = ErrorEvent err \<Longrightarrow>
     run_worker e ds b st =
       (st\<lparr>console := console st @ [WorkerErrorEvent err],
           errors := errors st + length b\<rparr>, Rejected, [Exited 1])"
  by (simp add: run_worker_def events_of_def handle_def on_error_def settle_first_def)

lemma snd_run_worker: "fst (snd (run_worker e ds b st)) = settle_of (fate e b)"
  by (cases "fate e b")
     (simp_all add: run_worker_posts run_worker_posts_error run_worker_error settle_of_def)

lemma settle_of_not_pending: "settle_of w \<noteq> Pending"
  by (cases w) (simp_all add: settle_of_def)

text \<open>\<^verbatim>\<open>Promise.all\<close> of a round rejects when one of its workers emits \<^verbatim>\<open>'error'\<close> and
  resolves otherwise.\<close>

lemma promise_all_run_workers:
  "promise_all (fst (snd (run_workers e ds bs st))) =
     (if \<exists>b \<in> set bs. settle_of (fate e b) = Rejected then Rejected else Resolved)"
proof (induction bs arbitrary: st)
  case Nil
  then show ?case by (simp add: promise_all_def)
next
  case (Cons b bs)
  obtain st1 s rest where w: "run_worker e ds b st = (st1, s, rest)"
    by (cases "run_worker e ds b st")
  then have s: "s = settle_of (fate e b)" using snd_run_worker [of e ds b st] by simp
  show ?case
  proof (cases "s = Rejected")
    case True
    then show ?thesis using w s by (simp add: promise_all_def)
  next
    case False
    then have r: "s = Resolved" using s settle_of_not_pending [of "fate e b"] by (cases s) simp_all
    obtain st2 ss late where ws: "run_workers e ds bs st1 = (st2, ss, late)"
      by (cases "run_workers e ds bs st1")
    have "promise_all (Resolved # ss) = promise_all ss" by (simp add: promise_all_def)
    then show ?thesis using w ws s r Cons.IH [of st1] by simp
  qed
qed

lemma process_round_total: "\<exists>st'. process_round e ds fs i st = Some st'"
proof -
  let ?st0 = "drain e ds (st\<lparr>spawned := spawned st @ round_batches e fs i\<rparr>)"
  obtain st1 ss late where w: "run_workers e ds (round_batches e fs i) ?st0 = (st1, ss, late)"
    by (cases "run_workers e ds (round_batches e fs i) ?st0")
  have "promise_all ss \<noteq> Pending"
    using promise_all_run_workers [of e ds "round_batches e fs i" ?st0] w by (simp split: if_splits)
  then show ?thesis using w
    by (cases "promise_all ss") (simp_all add: process_round_def Let_def)
qed

lemma rounds_total: "\<exists>st'. rounds e ds fs i st = Some st'"
proof (induction e ds fs i st rule: rounds.induct)
  case (1 e ds fs i st)
  show ?case
  proof (cases "i < length fs")
    case False
    then show ?thesis by (subst rounds.simps) simp
  next
    case True
    from process_round_total obtain st1 where
      r: "process_round e ds fs i st = Some st1" by blast
    from "1.IH" [OF True r] obtain st' where
      "rounds e ds fs (i + BATCH_SIZE * MAX_WORKERS e) st1 = Some st'" by blast
    then show ?thesis using True r by (subst rounds.simps) simp
  qed
qed

lemma partition_total: "\<exists>st'. partitionExtensionFiles e ds obj st = Some st'"
proof -
  obtain st1 where "rounds e ds (filesToProcess_of (progress st) (jsonFiles_of (listing e))) 0
      (st\<lparr>processed := 0, errors := 0, binSizes := []\<rparr>) = Some st1"
    using rounds_total by blast
  then show ?thesis
    by (simp add: partitionExtensionFiles_def Let_def split: option.splits)
qed

lemma main_finishes:
  assumes "d \<noteq> ParsedNull"
  shows "\<exists>st. main e d = Finished st"
proof -
  obtain obj c where l: "ProgressTracker_load (clock e 0) d = (LObj obj, c)"
    using assms by (cases d) (simp_all add: ProgressTracker_load_def)
  obtain st1 where "partitionExtensionFiles e (createBinDirectories (dirs e)) obj
      (initial_state d c obj) = Some st1"
    using partition_total by blast
  then show ?thesis using l by (simp add: main_def)
qed

text \<open>
  Claim C2. The completed set is monotone. In the partitioning script
  \<^verbatim>\<open>markFileProcessed\<close> and the consumption of a result only ever add to
  \<^verbatim>\<open>processedFiles\<close>, marking a file that is already there changes nothing at all, a
  round leaves a superset, and a whole run leaves both the progress object and the
  checkpoint file with a superset of what the file held before. In the upload script
  the success update only adds to \<^verbatim>\<open>completedFiles\<close> and leaves the list as it is when
  the path is already there, the failure update does not touch it, and a whole run
  leaves the list and the progress file with a superset of what the file held before.
\<close>

theorem completed_set_monotone:
  "set (processedFiles (progress st)) \<subseteq> set (processedFiles (progress (markFileProcessed e f st)))
   \<and> (f \<in> set (processedFiles (progress st)) \<longrightarrow> markFileProcessed e f st = st)
   \<and> set (processedFiles (progress st)) \<subseteq> set (processedFiles (progress (consume e r st)))
   \<and> (process_round e ds fs i st = Some st1 \<longrightarrow>
        set (processedFiles (progress st)) \<subseteq> set (processedFiles (progress st1)))
   \<and> (main e d = Finished st2 \<longrightarrow>
        persisted d \<subseteq> set (processedFiles (progress st2)) \<and> persisted d \<subseteq> persisted (disk st2))
   \<and> set (completedFiles p) \<subseteq> set (completedFiles (mark_completed relativePath p))
   \<and> (relativePath \<in> set (completedFiles p) \<longrightarrow>
        completedFiles (mark_completed relativePath p) = completedFiles p)
   \<and> completedFiles (count_failed p) = completedFiles p
   \<and> (uploadDirectoryWithTransferManager ue ud = Some us \<longrightarrow>
        persisted_uploads ud \<subseteq> set (completedFiles (shared us)) \<and>
        persisted_uploads ud \<subseteq> persisted_uploads (file_on_disk us))"
proof -
  have a: "set (processedFiles (progress st)) \<subseteq> set (processedFiles (progress (markFileProcessed e f st)))"
    by (auto simp: processedFiles_mark)
  have b: "f \<in> set (processedFiles (progress st)) \<longrightarrow> markFileProcessed e f st = st"
    by (simp add: mark_present_noop)
  have c: "set (processedFiles (progress st)) \<subseteq> set (processedFiles (progress (consume e r st)))"
    by (auto simp: processedFiles_consume)
  have d: "process_round e ds fs i st = Some st1 \<longrightarrow>
        set (processedFiles (progress st)) \<subseteq> set (processedFiles (progress st1))"
    using process_round_mono by blast
  have m: "main e d = Finished st2 \<longrightarrow>
        persisted d \<subseteq> set (processedFiles (progress st2)) \<and> persisted d \<subseteq> persisted (disk st2)"
    using main_disk by blast
  have f: "set (completedFiles p) \<subseteq> set (completedFiles (mark_completed relativePath p))"
    by (auto simp: completedFiles_mark_completed)
  have g: "relativePath \<in> set (completedFiles p) \<longrightarrow>
        completedFiles (mark_completed relativePath p) = completedFiles p"
    by (simp add: completedFiles_mark_completed)
  have h: "completedFiles (count_failed p) = completedFiles p" by simp
  have u: "uploadDirectoryWithTransferManager ue ud = Some us \<longrightarrow>
        persisted_uploads ud \<subseteq> set (completedFiles (shared us)) \<and>
        persisted_uploads ud \<subseteq> persisted_uploads (file_on_disk us)"
    using upload_run_grows by blast
  from a b c d m f g h u show ?thesis by blast
qed

theorem completed_set_monotone_witness:
  "(''aab.json'' \<in> set (processedFiles (progress demo_state)) \<and>
      markFileProcessed demo_env ''aab.json'' demo_state = demo_state)
   \<and> (\<exists>st1. process_round demo_env demo_dirs [''zz.json''] 0 demo_state = Some st1 \<and>
         set (processedFiles (progress demo_state)) \<subseteq> set (processedFiles (progress st1)))
   \<and> (\<exists>st2. main demo_env (Parsed demo_obj) = Finished st2 \<and>
         ''aab.json'' \<in> persisted (Parsed demo_obj) \<and>
         persisted (Parsed demo_obj) \<subseteq> set (processedFiles (progress st2)) \<and>
         persisted (Parsed demo_obj) \<subseteq> persisted (disk st2))
   \<and> (''a.json'' \<in> set (completedFiles demo_upload_progress) \<and>
        completedFiles (mark_completed ''a.json'' demo_upload_progress) =
          completedFiles demo_upload_progress)
   \<and> (\<exists>us. uploadDirectoryWithTransferManager demo_upload_env (Parsed (Some [''a.json''])) = Some us \<and>
         ''a.json'' \<in> persisted_uploads (Parsed (Some [''a.json''])) \<and>
         persisted_uploads (Parsed (Some [''a.json''])) \<subseteq> set (completedFiles (shared us)) \<and>
         persisted_uploads (Parsed (Some [''a.json''])) \<subseteq> persisted_uploads (file_on_disk us))"
proof -
  have in1: "''aab.json'' \<in> set (processedFiles (progress demo_state))"
    by (simp add: demo_state_def initial_state_def demo_obj_def of_json_def)
  obtain st1 where r: "process_round demo_env demo_dirs [''zz.json''] 0 demo_state = Some st1"
    using process_round_total by blast
  obtain st2 where m: "main demo_env (Parsed demo_obj) = Finished st2"
    using main_finishes [of "Parsed demo_obj" demo_env] by auto
  have in2: "''aab.json'' \<in> persisted (Parsed demo_obj)"
    by (simp add: persisted_def demo_obj_def)
  have in3: "''a.json'' \<in> set (completedFiles demo_upload_progress)"
    by (simp add: demo_upload_progress_def)
  have "uploadDirectoryWithTransferManager demo_upload_env (Parsed (Some [''a.json''])) \<noteq> None"
    by code_simp
  then obtain us where u:
    "uploadDirectoryWithTransferManager demo_upload_env (Parsed (Some [''a.json''])) = Some us"
    by blast
  have in4: "''a.json'' \<in> persisted_uploads (Parsed (Some [''a.json'']))"
    by (simp add: persisted_uploads_def load_completedFiles_def)
  note t = completed_set_monotone [where st = demo_state and e = demo_env and f = "''aab.json''"
      and ds = demo_dirs and fs = "[''zz.json'']" and i = 0 and ?st1.0 = st1
      and d = "Parsed demo_obj" and ?st2.0 = st2 and p = demo_upload_progress
      and relativePath = "''a.json''" and ue = demo_upload_env
      and ud = "Parsed (Some [''a.json''])" and us = us]
  from t in1 r m in2 in3 u in4 show ?thesis by blast
qed


lemma slice_batch: "slice fs s (min (s + b) (length fs)) = take b (drop s fs)"
  by (simp add: slice_def min_def)

lemma concat_chunks:
  "concat (map (\<lambda>w. take b (drop (i + w * b) fs)) [0..<k]) = take (k * b) (drop i fs)"
proof (induction k)
  case 0
  then show ?case by simp
next
  case (Suc k)
  have "Suc k * b = k * b + b" by simp
  then have "take (Suc k * b) (drop i fs) = take (k * b) (drop i fs) @ take b (drop (k * b) (drop i fs))"
    by (simp only: take_add)
  moreover have "drop (k * b) (drop i fs) = drop (i + k * b) fs" by (simp add: add.commute)
  ultimately show ?case using Suc by simp
qed

lemma takeWhile_upt_antitone:
  assumes "\<forall>w w'. w \<le> w' \<longrightarrow> P w' \<longrightarrow> P w"
  shows "\<exists>k \<le> n. takeWhile P [0..<n] = [0..<k] \<and> (k < n \<longrightarrow> \<not> P k)"
proof (induction n)
  case 0
  then show ?case by simp
next
  case (Suc n)
  then obtain k where k: "k \<le> n" "takeWhile P [0..<n] = [0..<k]" "k < n \<longrightarrow> \<not> P k" by blast
  show ?case
  proof (cases "k < n")
    case True
    then have "\<not> P k" using k by simp
    moreover have "k \<in> set [0..<n]" using True by simp
    ultimately have "takeWhile P ([0..<n] @ [n]) = takeWhile P [0..<n]"
      by (intro takeWhile_append1) auto
    then show ?thesis using k True by (intro exI [of _ k]) simp
  next
    case False
    then have kn: "k = n" using k by simp
    then have all: "\<And>x. x \<in> set [0..<n] \<Longrightarrow> P x" using k(2) by (metis set_takeWhileD)
    have app: "takeWhile P ([0..<n] @ [n]) = [0..<n] @ takeWhile P [n]"
      by (rule takeWhile_append2) (rule all)
    show ?thesis
    proof (cases "P n")
      case True
      then have "takeWhile P ([0..<n] @ [n]) = [0..<n] @ [n]"
        using app by simp
      then show ?thesis by (intro exI [of _ "Suc n"]) simp
    next
      case False
      then have "takeWhile P ([0..<n] @ [n]) = [0..<n]"
        using app by simp
      then show ?thesis using False by (intro exI [of _ n]) simp
    qed
  qed
qed

lemma concat_round_batches:
  "concat (round_batches e fs i) = take (BATCH_SIZE * MAX_WORKERS e) (drop i fs)"
proof -
  let ?B = BATCH_SIZE and ?W = "MAX_WORKERS e"
  let ?P = "\<lambda>w. i + w * ?B < length fs"
  have anti: "\<forall>w w'. w \<le> w' \<longrightarrow> ?P w' \<longrightarrow> ?P w"
  proof (intro allI impI)
    fix w w' :: nat assume "w \<le> w'" and "i + w' * ?B < length fs"
    moreover from \<open>w \<le> w'\<close> have "w * ?B \<le> w' * ?B" by simp
    ultimately show "i + w * ?B < length fs" by linarith
  qed
  from takeWhile_upt_antitone [of ?P ?W, OF anti] obtain k where
    k: "k \<le> ?W" "takeWhile ?P [0..<?W] = [0..<k]" "k < ?W \<longrightarrow> \<not> ?P k" by blast
  have "concat (round_batches e fs i) = take (k * ?B) (drop i fs)"
    using k(2) by (simp add: round_batches_def Let_def slice_batch concat_chunks)
  also have "\<dots> = take (?B * ?W) (drop i fs)"
  proof (cases "k < ?W")
    case True
    then have a: "length (drop i fs) \<le> k * ?B" using k(3) by simp
    have c: "k * ?B \<le> ?W * ?B" using k(1) by (rule mult_le_mono1)
    from a c have "length (drop i fs) \<le> ?W * ?B" by (rule order_trans)
    then have b: "length (drop i fs) \<le> ?B * ?W" by (metis mult.commute)
    show ?thesis using a b by (simp only: take_all)
  next
    case False
    then show ?thesis using k(1) by (simp add: mult.commute)
  qed
  finally show ?thesis .
qed

lemma spawned_writeFile [simp]: "spawned (writeFile e obj st) = spawned st"
  by (simp add: writeFile_def Let_def)

lemma spawned_save [simp]: "spawned (ProgressTracker_save e st) = spawned st"
  by (simp add: ProgressTracker_save_def Let_def)

lemma spawned_mark [simp]: "spawned (markFileProcessed e f st) = spawned st"
  by (simp add: markFileProcessed_def Let_def)

lemma spawned_consume [simp]: "spawned (consume e r st) = spawned st"
  by (simp add: consume_def)

lemma spawned_fold_consume [simp]: "spawned (fold (consume e) rs st) = spawned st"
  by (induction rs arbitrary: st) simp_all

lemma spawned_handle [simp]: "spawned (fst (handle e ds b ev st)) = spawned st"
  by (simp add: handle_def on_message_def on_error_def on_exit_def split: worker_event.splits)

lemma spawned_process_round:
  assumes "process_round e ds fs i st = Some st'"
  shows "spawned st' = spawned st @ round_batches e fs i"
proof -
  let ?bs = "round_batches e fs i"
  let ?P = "\<lambda>s. spawned s = spawned st @ ?bs"
  let ?st0 = "drain e ds (st\<lparr>spawned := spawned st @ ?bs\<rparr>)"
  from process_round_cases [OF assms] obtain st1 ss late where
    w: "run_workers e ds ?bs ?st0 = (st1, ss, late)" and
    c: "st' = ProgressTracker_save e st1 \<or>
        st' = st1\<lparr>console := console st1 @ [ErrorProcessingBatch], undelivered := late\<rparr>"
    by blast
  have p0: "?P ?st0" by (rule drain_preserves [where P = ?P]) simp_all
  have "?P (fst (run_workers e ds ?bs ?st0))"
    by (rule run_workers_preserves [where P = ?P]) (simp_all add: p0)
  then have "spawned st1 = spawned st @ ?bs" using w by simp
  then show ?thesis using c by auto
qed

lemma rounds_unfold:
  assumes "rounds e ds fs i st = Some st'" and "i < length fs"
  shows "\<exists>st1. process_round e ds fs i st = Some st1 \<and>
           rounds e ds fs (i + BATCH_SIZE * MAX_WORKERS e) st1 = Some st'"
  using assms by (subst (asm) rounds.simps) (auto split: option.splits)

lemma rounds_done: "\<not> i < length fs \<Longrightarrow> rounds e ds fs i st = Some st"
  by (subst rounds.simps) simp

lemma spawned_rounds:
  "rounds e ds fs i st = Some st' \<Longrightarrow> concat (spawned st') = concat (spawned st) @ drop i fs"
proof (induction e ds fs i st rule: rounds.induct)
  case (1 e ds fs i st)
  show ?case
  proof (cases "i < length fs")
    case False
    then show ?thesis using "1.prems" by (simp add: rounds_done)
  next
    case True
    from rounds_unfold [OF "1.prems" True] obtain st1 where
      r: "process_round e ds fs i st = Some st1" and
      rest: "rounds e ds fs (i + BATCH_SIZE * MAX_WORKERS e) st1 = Some st'" by blast
    from "1.IH" [OF True r rest] spawned_process_round [OF r]
    have "concat (spawned st') =
          concat (spawned st) @ concat (round_batches e fs i) @ drop (i + BATCH_SIZE * MAX_WORKERS e) fs"
      by simp
    also have "concat (round_batches e fs i) @ drop (i + BATCH_SIZE * MAX_WORKERS e) fs = drop i fs"
    proof -
      have "drop (i + BATCH_SIZE * MAX_WORKERS e) fs = drop (BATCH_SIZE * MAX_WORKERS e) (drop i fs)"
        by (simp add: add.commute)
      then show ?thesis by (simp only: concat_round_batches append_take_drop_id)
    qed
    finally show ?thesis .
  qed
qed


lemma undelivered_writeFile [simp]: "undelivered (writeFile e obj st) = undelivered st"
  by (simp add: writeFile_def Let_def)

lemma undelivered_save [simp]: "undelivered (ProgressTracker_save e st) = undelivered st"
  by (simp add: ProgressTracker_save_def Let_def)

lemma undelivered_mark [simp]: "undelivered (markFileProcessed e f st) = undelivered st"
  by (simp add: markFileProcessed_def Let_def)

lemma undelivered_consume [simp]: "undelivered (consume e r st) = undelivered st"
  by (simp add: consume_def)

lemma undelivered_fold_consume [simp]: "undelivered (fold (consume e) rs st) = undelivered st"
  by (induction rs arbitrary: st) simp_all

lemma undelivered_handle [simp]: "undelivered (fst (handle e ds b ev st)) = undelivered st"
  by (simp add: handle_def on_message_def on_error_def on_exit_def split: worker_event.splits)

lemma undelivered_drain [simp]: "undelivered (drain e ds st) = []"
  by (rule drain_preserves [where P = "\<lambda>s. undelivered s = []"]) simp_all

lemma drain_nothing: "undelivered st = [] \<Longrightarrow> drain e ds st = st"
  by (simp add: drain_def)

text \<open>When every worker posts its results no promise rejects, no event is left over,
  and a round is the consumption of the results batch after batch, then the save.\<close>

lemma run_workers_posts:
  assumes "\<forall>b. fate e b = Posts"
  shows "run_workers e ds bs st =
     (fold (\<lambda>b. fold (consume e) (workerProcess e ds b)) bs st, map (\<lambda>b. Resolved) bs, [])"
proof (induction bs arbitrary: st)
  case Nil
  then show ?case by simp
next
  case (Cons b bs)
  have "fate e b = Posts" using assms by simp
  from run_worker_posts [OF this, of ds st] Cons.IH show ?case by simp
qed

lemma process_round_posts:
  assumes "\<forall>b. fate e b = Posts" and "undelivered st = []"
  shows "process_round e ds fs i st =
     Some (ProgressTracker_save e
       (fold (\<lambda>b. fold (consume e) (workerProcess e ds b)) (round_batches e fs i)
          (st\<lparr>spawned := spawned st @ round_batches e fs i\<rparr>)))"
proof -
  have "promise_all (map (\<lambda>b. Resolved) (round_batches e fs i)) = Resolved"
    by (auto simp: promise_all_def)
  then show ?thesis
    using assms(2)
    by (simp add: process_round_def run_workers_posts [OF assms(1)] drain_nothing Let_def)
qed

lemma undelivered_fold_batches [simp]:
  "undelivered (fold (\<lambda>b. fold (consume e) (workerProcess e ds b)) bs st) = undelivered st"
  by (induction bs arbitrary: st) simp_all

lemma set_fold_batches:
  "set (processedFiles (progress (fold (\<lambda>b. fold (consume e) (workerProcess e ds b)) bs st))) =
     set (processedFiles (progress st)) \<union>
       {f. \<exists>b \<in> set bs. f \<in> set b \<and> success (process_file e ds f)}"
proof (induction bs arbitrary: st)
  case Nil
  then show ?case by simp
next
  case (Cons b bs)
  show ?case by (simp add: Cons.IH set_fold_consume_worker) blast
qed

lemma set_process_round:
  assumes "\<forall>b. fate e b = Posts" and "undelivered st = []"
    and "process_round e ds fs i st = Some st'"
  shows "set (processedFiles (progress st')) =
     set (processedFiles (progress st)) \<union>
       {f. \<exists>b \<in> set (round_batches e fs i). f \<in> set b \<and> success (process_file e ds f)}"
    and "undelivered st' = []"
  using assms(3) assms(2) unfolding process_round_posts [OF assms(1,2)]
  by (auto simp: set_fold_batches)

lemma set_round_batches:
  "\<Union> (set ` set (round_batches e fs i)) = set (take (BATCH_SIZE * MAX_WORKERS e) (drop i fs))"
  using concat_round_batches [of e fs i] by (metis set_concat)

lemma set_take_drop_step: "set (take n (drop i fs)) \<union> set (drop (i + n) fs) = set (drop i fs)"
proof -
  have "drop (i + n) fs = drop n (drop i fs)" by (simp add: add.commute)
  then show ?thesis by (metis append_take_drop_id set_append)
qed



lemma rounds_exact:
  "\<forall>b. fate e b = Posts \<Longrightarrow> undelivered st = [] \<Longrightarrow> rounds e ds fs i st = Some st' \<Longrightarrow>
     set (processedFiles (progress st')) =
       set (processedFiles (progress st)) \<union> {f \<in> set (drop i fs). success (process_file e ds f)} \<and>
     undelivered st' = []"
proof (induction e ds fs i st rule: rounds.induct)
  case (1 e ds fs i st)
  show ?case
  proof (cases "i < length fs")
    case False
    then show ?thesis using "1.prems" by (simp add: rounds_done)
  next
    case True
    from rounds_unfold [OF "1.prems"(3) True] obtain st1 where
      r: "process_round e ds fs i st = Some st1" and
      rest: "rounds e ds fs (i + BATCH_SIZE * MAX_WORKERS e) st1 = Some st'" by blast
    note sp = set_process_round [OF "1.prems"(1,2) r]
    have a: "set (processedFiles (progress st1)) = set (processedFiles (progress st)) \<union>
        {f \<in> set (take (BATCH_SIZE * MAX_WORKERS e) (drop i fs)). success (process_file e ds f)}"
      using sp(1) set_round_batches [of e fs i] by auto
    note b = "1.IH" [OF True r "1.prems"(1) sp(2) rest]
    note c = set_take_drop_step [of "BATCH_SIZE * MAX_WORKERS e" i fs]
    show ?thesis using a b c by blast
  qed
qed




lemma processedFiles_calc [simp]:
  "processedFiles (progress (calculateBinSizes e obj st)) = processedFiles (progress st)"
  by (simp add: calculateBinSizes_def split: option.splits)







lemma process_upload_total:
  "\<not> mutex (shared st) \<Longrightarrow> \<exists>st' s. processAndUploadFile e r st = Some (st', s)"
  by (simp add: processAndUploadFile_def updateProgressAtomic_def Let_def split: option.splits)

lemma upload_batch_total:
  "\<not> mutex (shared st) \<Longrightarrow> \<exists>st' ss. upload_batch e fs st = Some (st', ss)"
proof (induction fs arbitrary: st)
  case Nil
  then show ?case by simp
next
  case (Cons f fs)
  from process_upload_total [OF Cons.prems] obtain st1 s where
    a: "processAndUploadFile e f st = Some (st1, s)" by blast
  from process_upload_cases [OF a] have "\<not> mutex (shared st1)" by simp
  from Cons.IH [OF this] obtain st2 ss where "upload_batch e fs st1 = Some (st2, ss)" by blast
  then show ?case using a by simp
qed

lemma upload_batch_facts:
  "upload_batch e fs st = Some (st', ss) \<Longrightarrow>
     mutex (shared st') = mutex (shared st) \<and>
     saved st' = saved st \<and>
     started st' = started st @ fs \<and>
     ss = map (\<lambda>f. if fault e f = None then Resolved else Rejected) fs \<and>
     set (completedFiles (shared st')) =
       set (completedFiles (shared st)) \<union> {f \<in> set fs. fault e f = None}"
proof (induction fs arbitrary: st st' ss)
  case Nil
  then show ?case by simp
next
  case (Cons f fs)
  from Cons.prems(1) obtain st1 s ss1 where
    a: "processAndUploadFile e f st = Some (st1, s)" and
    b: "upload_batch e fs st1 = Some (st', ss1)" and
    c: "ss = s # ss1"
    by (auto split: option.splits prod.splits)
  note p = process_upload_cases [OF a]
  note ih = Cons.IH [OF b]
  have s: "s = (if fault e f = None then Resolved else Rejected)"
    using p by (auto split: option.splits)
  have cf: "set (completedFiles (shared st1)) =
      set (completedFiles (shared st)) \<union> (if fault e f = None then {f} else {})"
    using p by (auto simp: completedFiles_mark_completed split: option.splits)
  show ?case using p ih c s cf by auto
qed

lemma promise_all_upload:
  "promise_all (map (\<lambda>f. if fault e f = None then Resolved else Rejected) fs) =
     (if \<forall>f \<in> set fs. fault e f = None then Resolved else Rejected)"
  by (auto simp: promise_all_def)

lemma upload_rounds_done: "\<not> i < length fs \<Longrightarrow> upload_rounds e fs i st = Some st"
  by (subst upload_rounds.simps) simp

lemma mutex_saveProgress [simp]: "shared (saveProgress e st) = shared st"
  by (simp add: saveProgress_def Let_def)

lemma started_saveProgress [simp]: "started (saveProgress e st) = started st"
  by (simp add: saveProgress_def Let_def)



lemma set_slice_subset: "set (slice fs i j) \<subseteq> set (drop i fs)"
  by (auto simp: slice_def dest: in_set_takeD)



section \<open>Bins, failed outcomes and retries\<close>


lemma dir_exists_mkdir:
  "dir_exists (mkdir_if_missing q ds) p \<longleftrightarrow> dir_exists ds p \<or> p = q"
  by (auto simp: dir_exists_def mkdir_if_missing_def)

lemma dir_exists_fold_mkdir:
  "dir_exists (fold (\<lambda>x. mkdir_if_missing (g x)) xs ds) p \<longleftrightarrow>
     dir_exists ds p \<or> p \<in> g ` set xs"
  by (induction xs arbitrary: ds) (auto simp: dir_exists_mkdir)

lemma path_join_plain:
  "s \<noteq> [] \<Longrightarrow> s \<noteq> ''.'' \<Longrightarrow> s \<noteq> ''..'' \<Longrightarrow> path_join p s = p @ [s]"
  by (simp add: path_join_def)

lemma dot_not_in_chars: "CHR ''.'' \<notin> set chars"
  by (simp add: chars_def)

lemma path_join_prefix:
  "a \<in> set chars \<Longrightarrow> path_join targetBaseDir [a, b] = targetBaseDir @ [[a, b]]"
  using dot_not_in_chars by (auto simp: path_join_def)

text \<open>After \<^verbatim>\<open>createBinDirectories\<close> the directories are those from before, the base
  directory, and the 256 bins.\<close>

lemma dir_exists_createBinDirectories:
  "dir_exists (createBinDirectories ds) p \<longleftrightarrow>
     dir_exists ds p \<or> p = targetBaseDir \<or>
     (\<exists>a \<in> set chars. \<exists>b \<in> set chars. p = targetBaseDir @ [[a, b]])"
proof -
  have "(\<lambda>prefix. path_join targetBaseDir prefix) `
          set (concat (map (\<lambda>firstChar. map (\<lambda>secondChar. [firstChar, secondChar]) chars) chars)) =
        {targetBaseDir @ [[a, b]] | a b. a \<in> set chars \<and> b \<in> set chars}"
    by (auto simp: path_join_prefix image_iff)
  then show ?thesis
    unfolding createBinDirectories_def dir_exists_fold_mkdir dir_exists_mkdir by auto
qed

lemma success_process_file:
  "success (process_file e ds f) \<longleftrightarrow>
     srcPresent e f \<and>
     dir_exists ds (path_join targetBaseDir (substring (basename f ''.json'') 0 2)) \<and>
     copyFault e f = None"
  by (auto simp: process_file_def copyFileSync_def Let_def split: option.splits)

lemma substring_prefix: "substring s 0 2 = take 2 s"
  by (simp add: substring_def)

lemma bin_process_file:
  "bin (process_file e ds f) =
     (if success (process_file e ds f) then Some (take 2 (basename f ''.json'')) else None)"
  by (auto simp: process_file_def Let_def substring_prefix split: option.splits)


lemma aab_has_bin:
  assumes "srcPresent e ''aab.json''" and "copyFault e ''aab.json'' = None"
  shows "success (process_file e (createBinDirectories ds) ''aab.json'')"
proof -
  have "dir_exists (createBinDirectories ds) [''partitioned_extensions'', ''aa'']"
    unfolding dir_exists_createBinDirectories
    by (simp add: targetBaseDir_def chars_def)
  moreover have "path_join targetBaseDir (substring (basename ''aab.json'' ''.json'') 0 2) =
      [''partitioned_extensions'', ''aa'']"
    by (simp add: basename_def substring_prefix path_join_def targetBaseDir_def)
  ultimately show ?thesis using assms by (simp only: success_process_file)
qed


lemma demo_aab_succeeds: "success (process_file demo_env demo_dirs ''aab.json'')"
  by (simp add: success_process_file basename_def substring_prefix path_join_def targetBaseDir_def
      dir_exists_def demo_dirs_def demo_env_def)

text \<open>
  Claim C7. The bin of a file is the first two characters of its extension id (the
  file name without \<^verbatim>\<open>.json\<close>), whatever the environment, the directories, the
  number of workers and the batch the file is in: every successful result of every
  batch carries that label, and two runs that both place a file give it the same bin.
\<close>

theorem bin_is_id_prefix:
  "(success (process_file e ds f) \<longrightarrow>
      bin (process_file e ds f) = Some (take 2 (basename f ''.json'')))
   \<and> (\<forall>r \<in> set (workerProcess e ds fileBatch).
        success r \<longrightarrow> bin r = Some (take 2 (basename (rfile r) ''.json'')))
   \<and> (success (process_file e ds f) \<and> success (process_file e' ds' f) \<longrightarrow>
        bin (process_file e ds f) = bin (process_file e' ds' f))"
  by (auto simp: bin_process_file workerProcess_def)

theorem bin_is_id_prefix_witness:
  "success (process_file demo_env demo_dirs ''aab.json'')
   \<and> bin (process_file demo_env demo_dirs ''aab.json'') = Some ''aa''
   \<and> process_file demo_env demo_dirs ''aab.json'' \<in>
        set (workerProcess demo_env demo_dirs [''zz.json'', ''aab.json''])
   \<and> success (process_file (demo_env\<lparr>cpus := 8\<rparr>) (createBinDirectories []) ''aab.json'')
   \<and> bin (process_file demo_env demo_dirs ''aab.json'') =
        bin (process_file (demo_env\<lparr>cpus := 8\<rparr>) (createBinDirectories []) ''aab.json'')"
proof -
  have s1: "success (process_file demo_env demo_dirs ''aab.json'')" by (rule demo_aab_succeeds)
  have s2: "success (process_file (demo_env\<lparr>cpus := 8\<rparr>) (createBinDirectories []) ''aab.json'')"
    by (rule aab_has_bin) (simp_all add: demo_env_def)
  have m: "process_file demo_env demo_dirs ''aab.json'' \<in>
        set (workerProcess demo_env demo_dirs [''zz.json'', ''aab.json''])"
    by (simp add: workerProcess_def)
  have b: "take 2 (basename ''aab.json'' ''.json'') = ''aa''" by (simp add: basename_def)
  note t = bin_is_id_prefix [where e = demo_env and ds = demo_dirs and f = "''aab.json''"
      and fileBatch = "[''zz.json'', ''aab.json'']" and e' = "demo_env\<lparr>cpus := 8\<rparr>"
      and ds' = "createBinDirectories []"]
  have b1: "bin (process_file demo_env demo_dirs ''aab.json'') = Some ''aa''"
    using t s1 b by simp
  have b2: "bin (process_file demo_env demo_dirs ''aab.json'') =
        bin (process_file (demo_env\<lparr>cpus := 8\<rparr>) (createBinDirectories []) ''aab.json'')"
    using t s1 s2 by blast
  from s1 b1 m s2 b2 show ?thesis by blast
qed



section \<open>Files without a bin, and checkpoints without fields\<close>


lemma rfile_workerProcess: "map rfile (workerProcess e ds fileBatch) = fileBatch"
  by (simp add: workerProcess_def comp_def)

lemma error_process_file:
  "\<not> success (process_file e ds f) \<Longrightarrow> error (process_file e ds f) \<noteq> None"
  by (auto simp: process_file_def Let_def split: option.splits)

lemma no_bin_after_create:
  assumes "b \<noteq> []" and "b \<noteq> ''.''" and "b \<noteq> ''..''"
    and "\<forall>x \<in> set chars. \<forall>y \<in> set chars. b \<noteq> [x, y]"
    and "\<not> dir_exists ds (targetBaseDir @ [b])"
  shows "\<not> dir_exists (createBinDirectories ds) (path_join targetBaseDir b)"
proof -
  have j: "path_join targetBaseDir b = targetBaseDir @ [b]"
    using assms(1-3) by (rule path_join_plain)
  show ?thesis
    unfolding j dir_exists_createBinDirectories using assms(4,5) by auto
qed

text \<open>
  Claim C10, as the code has it. The copy fails exactly when the directory that
  \<^verbatim>\<open>path.join(targetBaseDir, bin)\<close> names does not exist. A file whose bin directory is
  not there yields a failed result with an error text, its consumption leaves
  \<^verbatim>\<open>processedFiles\<close> alone and counts one error, and the worker still returns one
  result for every file of the batch. After \<^verbatim>\<open>createBinDirectories\<close> that is the case
  for every prefix other than the empty one, \<^verbatim>\<open>.\<close> and \<^verbatim>\<open>..\<close> that is not one of the 256
  two-letter combinations of \<^verbatim>\<open>a\<close> to \<^verbatim>\<open>p\<close> and whose directory was not there before.
\<close>

theorem missing_bin_fails:
  "(\<not> dir_exists ds (path_join targetBaseDir (take 2 (basename f ''.json''))) \<longrightarrow>
      \<not> success (process_file e ds f) \<and> error (process_file e ds f) \<noteq> None \<and>
      processedFiles (progress (consume e (process_file e ds f) st)) = processedFiles (progress st) \<and>
      errors (consume e (process_file e ds f) st) = errors st + 1 \<and>
      map rfile (workerProcess e ds fileBatch) = fileBatch)
   \<and> (b \<noteq> [] \<and> b \<noteq> ''.'' \<and> b \<noteq> ''..'' \<and> (\<forall>x \<in> set chars. \<forall>y \<in> set chars. b \<noteq> [x, y]) \<and>
        \<not> dir_exists ds0 (targetBaseDir @ [b]) \<longrightarrow>
        \<not> dir_exists (createBinDirectories ds0) (path_join targetBaseDir b))"
proof -
  have a: "\<not> dir_exists ds (path_join targetBaseDir (take 2 (basename f ''.json''))) \<longrightarrow>
      \<not> success (process_file e ds f) \<and> error (process_file e ds f) \<noteq> None \<and>
      processedFiles (progress (consume e (process_file e ds f) st)) = processedFiles (progress st) \<and>
      errors (consume e (process_file e ds f) st) = errors st + 1 \<and>
      map rfile (workerProcess e ds fileBatch) = fileBatch"
  proof
    assume n: "\<not> dir_exists ds (path_join targetBaseDir (take 2 (basename f ''.json'')))"
    then have f: "\<not> success (process_file e ds f)"
      by (simp add: success_process_file substring_prefix)
    then show "\<not> success (process_file e ds f) \<and> error (process_file e ds f) \<noteq> None \<and>
      processedFiles (progress (consume e (process_file e ds f) st)) = processedFiles (progress st) \<and>
      errors (consume e (process_file e ds f) st) = errors st + 1 \<and>
      map rfile (workerProcess e ds fileBatch) = fileBatch"
      using error_process_file [OF f] rfile_workerProcess [of e ds fileBatch]
      by (simp add: consume_def)
  qed
  have b: "b \<noteq> [] \<and> b \<noteq> ''.'' \<and> b \<noteq> ''..'' \<and> (\<forall>x \<in> set chars. \<forall>y \<in> set chars. b \<noteq> [x, y]) \<and>
        \<not> dir_exists ds0 (targetBaseDir @ [b]) \<longrightarrow>
        \<not> dir_exists (createBinDirectories ds0) (path_join targetBaseDir b)"
    using no_bin_after_create [of b ds0] by blast
  from a b show ?thesis by blast
qed

theorem missing_bin_fails_witness:
  "take 2 (basename ''zz.json'' ''.json'') = ''zz''
   \<and> ''zz'' \<noteq> [] \<and> ''zz'' \<noteq> ''.'' \<and> ''zz'' \<noteq> ''..''
   \<and> CHR ''z'' \<notin> set chars
   \<and> \<not> dir_exists [] (targetBaseDir @ [''zz''])
   \<and> \<not> dir_exists (createBinDirectories []) (path_join targetBaseDir ''zz'')
   \<and> \<not> success (process_file demo_env (createBinDirectories []) ''zz.json'')
   \<and> error (process_file demo_env (createBinDirectories []) ''zz.json'') \<noteq> None
   \<and> processedFiles (progress (consume demo_env
          (process_file demo_env (createBinDirectories []) ''zz.json'') demo_state)) =
        processedFiles (progress demo_state)
   \<and> errors (consume demo_env (process_file demo_env (createBinDirectories []) ''zz.json'') demo_state) =
        errors demo_state + 1
   \<and> map rfile (workerProcess demo_env (createBinDirectories []) [''zz.json'', ''aab.json'']) =
        [''zz.json'', ''aab.json'']"
proof -
  have p: "take 2 (basename ''zz.json'' ''.json'') = ''zz''" by (simp add: basename_def)
  have z: "CHR ''z'' \<notin> set chars" by (simp add: chars_def)
  then have nb: "\<forall>x \<in> set chars. \<forall>y \<in> set chars. ''zz'' \<noteq> [x, y]" by auto
  have nd: "\<not> dir_exists [] (targetBaseDir @ [''zz''])"
    by (simp add: dir_exists_def targetBaseDir_def)
  note t = missing_bin_fails [where ds = "createBinDirectories []" and f = "''zz.json''"
      and e = demo_env and st = demo_state and fileBatch = "[''zz.json'', ''aab.json'']"
      and b = "''zz''" and ?ds0.0 = "[]"]
  have m: "\<not> dir_exists (createBinDirectories []) (path_join targetBaseDir ''zz'')"
    using t nb nd by simp
  then have "\<not> dir_exists (createBinDirectories [])
      (path_join targetBaseDir (take 2 (basename ''zz.json'' ''.json'')))"
    using p by simp
  with t have r: "\<not> success (process_file demo_env (createBinDirectories []) ''zz.json'') \<and>
      error (process_file demo_env (createBinDirectories []) ''zz.json'') \<noteq> None \<and>
      processedFiles (progress (consume demo_env
          (process_file demo_env (createBinDirectories []) ''zz.json'') demo_state)) =
        processedFiles (progress demo_state) \<and>
      errors (consume demo_env (process_file demo_env (createBinDirectories []) ''zz.json'') demo_state) =
        errors demo_state + 1 \<and>
      map rfile (workerProcess demo_env (createBinDirectories []) [''zz.json'', ''aab.json'']) =
        [''zz.json'', ''aab.json'']"
    by blast
  from p z nd m r show ?thesis by simp
qed

text \<open>
  Claim C10 as stated fails. The file \<^verbatim>\<open>..json\<close> passes the \<^verbatim>\<open>.json\<close> filter and has the
  one-character id \<^verbatim>\<open>.\<close>, shorter than the prefix; its bin \<^verbatim>\<open>.\<close> joins to the base
  directory itself, which exists, so the copy succeeds and the file is recorded as
  processed. The file \<^verbatim>\<open>...json\<close> has the id \<^verbatim>\<open>..\<close>, a two-character prefix outside
  the alphabet; its bin joins to the working directory, and it succeeds as well.
\<close>

theorem short_id_succeeds_counterexample:
  "jsonFiles_of [''..json'', ''...json''] = [''..json'', ''...json'']
   \<and> basename ''..json'' ''.json'' = ''.''
   \<and> length (basename ''..json'' ''.json'') < 2
   \<and> success (process_file demo_env (createBinDirectories []) ''..json'')
   \<and> ''..json'' \<in> set (processedFiles (progress
        (consume demo_env (process_file demo_env (createBinDirectories []) ''..json'') demo_state)))
   \<and> take 2 (basename ''...json'' ''.json'') = ''..''
   \<and> CHR ''.'' \<notin> set chars
   \<and> success (process_file demo_env (createBinDirectories []) ''...json'')"
proof -
  have j: "jsonFiles_of [''..json'', ''...json''] = [''..json'', ''...json'']" by code_simp
  have b1: "basename ''..json'' ''.json'' = ''.''" by (simp add: basename_def)
  have b2: "take 2 (basename ''...json'' ''.json'') = ''..''" by (simp add: basename_def)
  have d1: "dir_exists (createBinDirectories []) targetBaseDir"
    unfolding dir_exists_createBinDirectories by simp
  have d2: "dir_exists (createBinDirectories []) []" by (simp add: dir_exists_def)
  have s1: "success (process_file demo_env (createBinDirectories []) ''..json'')"
    using d1 by (simp add: success_process_file b1 substring_prefix path_join_def demo_env_def)
  have s2: "success (process_file demo_env (createBinDirectories []) ''...json'')"
    using d2 b2
    by (simp add: success_process_file substring_prefix path_join_def demo_env_def targetBaseDir_def)
  have c: "''..json'' \<in> set (processedFiles (progress
        (consume demo_env (process_file demo_env (createBinDirectories []) ''..json'') demo_state)))"
    using s1 by (simp add: processedFiles_consume)
  from j b1 b2 s1 s2 c dot_not_in_chars show ?thesis by simp
qed

text \<open>Reading a checkpoint that is absent, unreadable or not JSON gives the default
  object in the partitioning script and the empty list in the upload script, with a
  console line for the two failures.\<close>

lemma load_fails_soft:
  "d \<in> {Absent, Unreadable, Corrupt} \<Longrightarrow>
     fst (ProgressTracker_load now d) = LObj (default_progress now) \<and>
     o_processedFiles (default_progress now) = Some []"
  "d' \<in> {Absent, Unreadable, Corrupt, ParsedNull, Parsed None} \<Longrightarrow>
     fst (load_completedFiles d') = []"
  by (auto simp: ProgressTracker_load_def default_progress_def load_completedFiles_def)

text \<open>
  Claim C9 at the checkpoint \<^verbatim>\<open>{}\<close> and at the checkpoint \<^verbatim>\<open>null\<close>. The upload script
  reads both as the empty list. \<^verbatim>\<open>ProgressTracker.load\<close> returns what \<^verbatim>\<open>JSON.parse\<close> gave:
  for \<^verbatim>\<open>{}\<close> an object without \<^verbatim>\<open>processedFiles\<close>, on which \<^verbatim>\<open>partitionExtensionFiles\<close>
  throws a \<^verbatim>\<open>TypeError\<close> into its outer \<^verbatim>\<open>catch\<close> and hands no file to any worker; for
  \<^verbatim>\<open>null\<close> the value \<^verbatim>\<open>null\<close>, on which \<^verbatim>\<open>main\<close> ends the process with exit code 1.
\<close>

theorem load_does_not_default_missing_fields:
  "load_completedFiles (Parsed None) = ([], [])
   \<and> load_completedFiles ParsedNull = ([], [ErrorLoadingProgressFile])
   \<and> ProgressTracker_load 0 (Parsed empty_obj) = (LObj empty_obj, [])
   \<and> o_processedFiles empty_obj = None
   \<and> (\<exists>st. main demo_env (Parsed empty_obj) = Finished st \<and>
         console st = [FailedToPartition ''TypeError''] \<and> spawned st = [] \<and> processed st = 0)
   \<and> ProgressTracker_load 0 ParsedNull = (LNull, [])
   \<and> main demo_env ParsedNull = Exit1 [CriticalError ''TypeError'']"
  by (simp add: load_completedFiles_def ProgressTracker_load_def empty_obj_def main_def
      partitionExtensionFiles_def demo_env_def initial_state_def calculateBinSizes_def
      writeFile_def of_json_def Let_def)
section \<open>Workers that fail\<close>



lemma errors_writeFile [simp]: "errors (writeFile e obj st) = errors st"
  by (simp add: writeFile_def Let_def)

lemma errors_save [simp]: "errors (ProgressTracker_save e st) = errors st"
  by (simp add: ProgressTracker_save_def Let_def)

lemma errors_mark [simp]: "errors (markFileProcessed e f st) = errors st"
  by (simp add: markFileProcessed_def Let_def)





lemma spawned_drain [simp]: "spawned (drain e ds st) = spawned st"
  by (rule drain_preserves [where P = "\<lambda>s. spawned s = spawned st"]) simp_all









lemma errors_calc [simp]: "errors (calculateBinSizes e obj st) = errors st"
  by (simp add: calculateBinSizes_def split: option.splits)

lemma spawned_calc [simp]: "spawned (calculateBinSizes e obj st) = spawned st"
  by (simp add: calculateBinSizes_def split: option.splits)

lemma undelivered_calc [simp]: "undelivered (calculateBinSizes e obj st) = undelivered st"
  by (simp add: calculateBinSizes_def split: option.splits)







section \<open>Running twice\<close>


lemma processed_writeFile [simp]: "processed (writeFile e obj st) = processed st"
  by (simp add: writeFile_def Let_def)

lemma processed_save [simp]: "processed (ProgressTracker_save e st) = processed st"
  by (simp add: ProgressTracker_save_def Let_def)

lemma processed_mark [simp]: "processed (markFileProcessed e f st) = processed st"
  by (simp add: markFileProcessed_def Let_def)

lemma processed_consume:
  "processed (consume e r st) = (if success r then processed st + 1 else processed st)"
  by (simp add: consume_def)

lemma processed_fold_consume:
  "\<forall>r \<in> set rs. \<not> success r \<Longrightarrow> processed (fold (consume e) rs st) = processed st"
  by (induction rs arbitrary: st) (simp_all add: processed_consume)

lemma processed_fold_batches:
  "\<forall>b \<in> set bs. \<forall>f \<in> set b. \<not> success (process_file e ds f) \<Longrightarrow>
     processed (fold (\<lambda>b. fold (consume e) (workerProcess e ds b)) bs st) = processed st"
proof (induction bs arbitrary: st)
  case Nil
  then show ?case by simp
next
  case (Cons b bs)
  have "\<forall>r \<in> set (workerProcess e ds b). \<not> success r"
    using Cons.prems by (simp add: workerProcess_def)
  then have 1: "processed (fold (consume e) (workerProcess e ds b) st) = processed st"
    by (rule processed_fold_consume)
  have 2: "\<forall>b \<in> set bs. \<forall>f \<in> set b. \<not> success (process_file e ds f)"
    using Cons.prems by simp
  show ?case using 1 Cons.IH [OF 2] by simp
qed

lemma in_round_batches:
  "b \<in> set (round_batches e fs i) \<Longrightarrow> f \<in> set b \<Longrightarrow> f \<in> set (drop i fs)"
proof -
  assume "b \<in> set (round_batches e fs i)" and "f \<in> set b"
  then have "f \<in> \<Union> (set ` set (round_batches e fs i))" by blast
  then have "f \<in> set (take (BATCH_SIZE * MAX_WORKERS e) (drop i fs))"
    by (simp only: set_round_batches)
  then show ?thesis by (rule in_set_takeD)
qed

lemma processed_process_round:
  assumes "\<forall>b. fate e b = Posts" and "undelivered st = []"
    and "\<forall>f \<in> set (drop i fs). \<not> success (process_file e ds f)"
    and "process_round e ds fs i st = Some st'"
  shows "processed st' = processed st"
proof -
  have "\<forall>b \<in> set (round_batches e fs i). \<forall>f \<in> set b. \<not> success (process_file e ds f)"
    using assms(3) in_round_batches by blast
  then have "processed (fold (\<lambda>b. fold (consume e) (workerProcess e ds b)) (round_batches e fs i)
      (st\<lparr>spawned := spawned st @ round_batches e fs i\<rparr>)) = processed st"
    by (simp add: processed_fold_batches)
  then show ?thesis using assms(4) unfolding process_round_posts [OF assms(1,2)] by auto
qed

lemma processed_rounds:
  "\<forall>b. fate e b = Posts \<Longrightarrow> undelivered st = [] \<Longrightarrow>
     \<forall>f \<in> set (drop i fs). \<not> success (process_file e ds f) \<Longrightarrow>
     rounds e ds fs i st = Some st' \<Longrightarrow> processed st' = processed st"
proof (induction e ds fs i st rule: rounds.induct)
  case (1 e ds fs i st)
  show ?case
  proof (cases "i < length fs")
    case False
    then show ?thesis using "1.prems" by (simp add: rounds_done)
  next
    case True
    from rounds_unfold [OF "1.prems"(4) True] obtain st1 where
      r: "process_round e ds fs i st = Some st1" and
      rest: "rounds e ds fs (i + BATCH_SIZE * MAX_WORKERS e) st1 = Some st'" by blast
    have sub: "set (drop (i + BATCH_SIZE * MAX_WORKERS e) fs) \<subseteq> set (drop i fs)"
      using set_take_drop_step [of "BATCH_SIZE * MAX_WORKERS e" i fs] by auto
    then have later: "\<forall>f \<in> set (drop (i + BATCH_SIZE * MAX_WORKERS e) fs).
        \<not> success (process_file e ds f)"
      using "1.prems"(3) by blast
    note u1 = set_process_round(2) [OF "1.prems"(1,2) r]
    from "1.IH" [OF True r "1.prems"(1) u1 later rest]
      processed_process_round [OF "1.prems"(1,2,3) r]
    show ?thesis by simp
  qed
qed

lemma save_synced:
  "writeOk e (length (saves st)) \<Longrightarrow> synced (ProgressTracker_save e st)"
  by (simp add: synced_def ProgressTracker_save_def writeFile_def Let_def to_json_def)

text \<open>The typed reading of a checkpoint that \<^verbatim>\<open>load\<close> accepts and that has its list.\<close>

lemma load_typed:
  assumes "d \<noteq> ParsedNull" and "\<forall>obj. d = Parsed obj \<longrightarrow> o_processedFiles obj \<noteq> None"
  shows "\<exists>obj c pf. ProgressTracker_load now d = (LObj obj, c) \<and> o_processedFiles obj = Some pf \<and>
           set pf = persisted d \<and> (\<forall>obj'. d = Parsed obj' \<longrightarrow> obj' = obj)"
  using assms
  by (cases d) (auto simp: ProgressTracker_load_def default_progress_def persisted_def)


lemma partition_typed:
  assumes "o_processedFiles obj = Some pf0"
  shows "partitionExtensionFiles e ds obj st =
     (if \<not> sourceDirExists e
      then Some (st\<lparr>console := console st @ [FailedToPartition ''Source directory does not exist!'']\<rparr>)
      else if filesToProcess_of (progress st) (jsonFiles_of (listing e)) = [] then Some st
      else (case rounds e ds (filesToProcess_of (progress st) (jsonFiles_of (listing e))) 0
                   (st\<lparr>processed := 0, errors := 0, binSizes := []\<rparr>) of
              None \<Rightarrow> None
            | Some st1 \<Rightarrow> Some (drain e ds (ProgressTracker_save e st1))))"
  using assms by (simp add: partitionExtensionFiles_def Let_def)

lemma binSizesCalculated_writeFile [simp]:
  "binSizesCalculated (progress (writeFile e obj st)) = binSizesCalculated (progress st)"
  by (simp add: writeFile_def Let_def)

lemma calc_synced:
  assumes "\<forall>n. writeOk e n" and "o_processedFiles obj \<noteq> None"
    and "synced st \<or> binSizesCalculated (progress st) \<noteq> Some True"
  shows "synced (calculateBinSizes e obj st)"
proof (cases "binSizesCalculated (progress st) = Some True")
  case True
  then show ?thesis using assms(3) by (simp add: calculateBinSizes_def)
next
  case False
  have "writeOk e (length (saves (st\<lparr>progress := (progress st)\<lparr>binSizesCalculated := Some True\<rparr>\<rparr>)))"
    using assms(1) by simp
  from save_synced [OF this] show ?thesis
    using False assms(2) by (auto simp: calculateBinSizes_def)
qed

text \<open>What one run of \<^verbatim>\<open>main\<close> does when every worker posts its results and the
  checkpoint, if there is one, has its list.\<close>

lemma main_facts:
  assumes posts: "\<forall>b. fate e b = Posts"
    and nn: "d \<noteq> ParsedNull"
    and ty: "\<forall>obj. d = Parsed obj \<longrightarrow> o_processedFiles obj \<noteq> None"
    and m: "main e d = Finished st"
  shows "set (processedFiles (progress st)) =
           persisted d \<union> (if sourceDirExists e
              then {f \<in> set (jsonFiles_of (listing e)).
                      success (process_file e (createBinDirectories (dirs e)) f)}
              else {})"
    and "concat (spawned st) =
           (if sourceDirExists e
            then filter (\<lambda>f. f \<notin> persisted d) (jsonFiles_of (listing e)) else [])"
    and "(\<forall>f \<in> set (concat (spawned st)).
            \<not> success (process_file e (createBinDirectories (dirs e)) f)) \<longrightarrow> processed st = 0"
    and "(\<forall>n. writeOk e n) \<longrightarrow> synced st"
    and "concat (spawned st) = [] \<longrightarrow> spawned st = []"
proof -
  let ?ds = "createBinDirectories (dirs e)"
  let ?js = "jsonFiles_of (listing e)"
  from load_typed [OF nn ty, of "clock e 0"] obtain obj c pf0 where
    l: "ProgressTracker_load (clock e 0) d = (LObj obj, c)" and
    o: "o_processedFiles obj = Some pf0" and
    pd: "set pf0 = persisted d" and
    same: "\<forall>obj'. d = Parsed obj' \<longrightarrow> obj' = obj" by blast
  let ?st0 = "initial_state d c obj"
  from m l obtain st1 where
    p: "partitionExtensionFiles e ?ds obj ?st0 = Some st1" and
    s: "st = calculateBinSizes e obj st1"
    by (auto simp: main_def split: option.splits)
  have pf_init: "processedFiles (progress ?st0) = pf0"
    using o by (simp add: initial_state_def of_json_def)
  let ?fs = "filesToProcess_of (progress ?st0) ?js"
  have fs: "?fs = filter (\<lambda>f. f \<notin> persisted d) ?js"
    using pf_init pd by (simp add: filesToProcess_of_def isFileProcessed_def)
  have sp0: "spawned ?st0 = []" and pr0: "processed ?st0 = 0" and un0: "undelivered ?st0 = []"
    by (simp_all add: initial_state_def)
  have init_sync: "(\<exists>obj'. d = Parsed obj') \<longrightarrow> synced ?st0"
    using same o pf_init by (auto simp: synced_def initial_state_def)
  have init_flag: "(\<forall>obj'. d \<noteq> Parsed obj') \<longrightarrow> binSizesCalculated (progress ?st0) \<noteq> Some True"
    using l nn by (cases d) (auto simp: ProgressTracker_load_def default_progress_def
        initial_state_def of_json_def)
  have sp_calc: "spawned st = spawned st1" and pr_calc: "processed st = processed st1"
    and pf_calc: "processedFiles (progress st) = processedFiles (progress st1)"
    using s o by (auto simp: calculateBinSizes_def)
  note pt = partition_typed [OF o, of e ?ds ?st0]
  consider (nodir) "\<not> sourceDirExists e"
    | (nodiff) "sourceDirExists e" "?fs = []"
    | (ran) "sourceDirExists e" "?fs \<noteq> []"
    by blast
  then have
    "set (processedFiles (progress st1)) =
           persisted d \<union> (if sourceDirExists e
              then {f \<in> set ?js. success (process_file e ?ds f)} else {})
     \<and> concat (spawned st1) = (if sourceDirExists e then ?fs else [])
     \<and> ((\<forall>f \<in> set (concat (spawned st1)). \<not> success (process_file e ?ds f)) \<longrightarrow> processed st1 = 0)
     \<and> ((\<forall>n. writeOk e n) \<longrightarrow> synced st1 \<or> binSizesCalculated (progress st1) \<noteq> Some True)
     \<and> (concat (spawned st1) = [] \<longrightarrow> spawned st1 = [])"
  proof cases
    case nodir
    then have "st1 = ?st0\<lparr>console := console ?st0 @
        [FailedToPartition ''Source directory does not exist!'']\<rparr>"
      using p pt by simp
    then show ?thesis
      using nodir pf_init pd sp0 pr0 init_sync init_flag by (auto simp: synced_def)
  next
    case nodiff
    then have e1: "st1 = ?st0" using p pt by simp
    have "\<forall>f \<in> set ?js. f \<in> persisted d"
      using nodiff(2) fs by (auto simp: filter_empty_conv)
    then show ?thesis
      using e1 nodiff pf_init pd sp0 pr0 init_sync init_flag by auto
  next
    case ran
    let ?st0' = "?st0\<lparr>processed := 0, errors := 0, binSizes := []\<rparr>"
    from ran p pt obtain st1' where
      r: "rounds e ?ds ?fs 0 ?st0' = Some st1'" and
      sv0: "st1 = drain e ?ds (ProgressTracker_save e st1')"
      by (auto split: option.splits)
    have un0': "undelivered ?st0' = []" using un0 by simp
    note ex = rounds_exact [OF posts un0' r]
    have sv: "st1 = ProgressTracker_save e st1'"
      using sv0 ex by (simp add: drain_nothing)
    from ex
    have a: "set (processedFiles (progress st1')) = set pf0 \<union> {f \<in> set ?fs. success (process_file e ?ds f)}"
      using pf_init by simp
    from spawned_rounds [OF r] have b: "concat (spawned st1') = ?fs" using sp0 by simp
    have c: "(\<forall>f \<in> set ?fs. \<not> success (process_file e ?ds f)) \<longrightarrow> processed st1' = 0"
      using processed_rounds [OF posts un0', of 0 ?fs ?ds st1'] r by simp
    have d: "(\<forall>n. writeOk e n) \<longrightarrow> synced st1"
      using save_synced [of e st1'] sv by simp
    have e: "spawned st1 = spawned st1'" "processed st1 = processed st1'"
      "processedFiles (progress st1) = processedFiles (progress st1')"
      using sv by simp_all
    have "set pf0 \<union> {f \<in> set ?fs. success (process_file e ?ds f)} =
          persisted d \<union> {f \<in> set ?js. success (process_file e ?ds f)}"
      using fs pd by auto
    then show ?thesis using a b c d e ran by auto
  qed
  then have k1: "set (processedFiles (progress st1)) =
           persisted d \<union> (if sourceDirExists e
              then {f \<in> set ?js. success (process_file e ?ds f)} else {})"
    and k2: "concat (spawned st1) = (if sourceDirExists e then ?fs else [])"
    and k3: "(\<forall>f \<in> set (concat (spawned st1)). \<not> success (process_file e ?ds f)) \<longrightarrow>
               processed st1 = 0"
    and k4: "(\<forall>n. writeOk e n) \<longrightarrow> synced st1 \<or> binSizesCalculated (progress st1) \<noteq> Some True"
    and k5: "concat (spawned st1) = [] \<longrightarrow> spawned st1 = []"
    by blast+
  show "set (processedFiles (progress st)) =
           persisted d \<union> (if sourceDirExists e
              then {f \<in> set (jsonFiles_of (listing e)).
                      success (process_file e (createBinDirectories (dirs e)) f)}
              else {})"
    using k1 pf_calc by simp
  show "concat (spawned st) =
           (if sourceDirExists e
            then filter (\<lambda>f. f \<notin> persisted d) (jsonFiles_of (listing e)) else [])"
    using k2 sp_calc fs by simp
  show "(\<forall>f \<in> set (concat (spawned st)).
            \<not> success (process_file e (createBinDirectories (dirs e)) f)) \<longrightarrow> processed st = 0"
    using k3 sp_calc pr_calc by simp
  show "(\<forall>n. writeOk e n) \<longrightarrow> synced st"
  proof
    assume w: "\<forall>n. writeOk e n"
    then have "synced st1 \<or> binSizesCalculated (progress st1) \<noteq> Some True" using k4 by simp
    from calc_synced [OF w _ this, of obj] o s show "synced st" by simp
  qed
  show "concat (spawned st) = [] \<longrightarrow> spawned st = []"
    using k5 sp_calc by simp
qed

lemma synced_typed:
  "synced st \<Longrightarrow> disk st \<noteq> ParsedNull \<and> (\<forall>obj. disk st = Parsed obj \<longrightarrow> o_processedFiles obj \<noteq> None) \<and>
     persisted (disk st) = set (processedFiles (progress st))"
  by (auto simp: synced_def persisted_def)

text \<open>Running \<^verbatim>\<open>main\<close> twice over the same directory, when every worker posts its
  results and every write of the checkpoint succeeds: the first run records every
  file that can be placed, in the progress object and in the checkpoint file; the
  second run ends with the same set, counts no successful result, and the only files
  it hands to workers are files that fail again.\<close>

lemma main_twice:
  assumes posts: "\<forall>b. fate e b = Posts" and wr: "\<forall>n. writeOk e n"
    and nn: "d \<noteq> ParsedNull"
    and ty: "\<forall>obj. d = Parsed obj \<longrightarrow> o_processedFiles obj \<noteq> None"
  shows "\<exists>st1 st2. main e d = Finished st1 \<and> main e (disk st1) = Finished st2 \<and>
     set (processedFiles (progress st1)) =
       persisted d \<union> (if sourceDirExists e
          then {f \<in> set (jsonFiles_of (listing e)).
                  success (process_file e (createBinDirectories (dirs e)) f)}
          else {}) \<and>
     persisted (disk st1) = set (processedFiles (progress st1)) \<and>
     set (processedFiles (progress st2)) = set (processedFiles (progress st1)) \<and>
     persisted (disk st2) = persisted (disk st1) \<and>
     processed st2 = 0 \<and>
     (\<forall>f \<in> set (concat (spawned st2)).
         \<not> success (process_file e (createBinDirectories (dirs e)) f)) \<and>
     ((\<forall>f \<in> set (jsonFiles_of (listing e)).
          success (process_file e (createBinDirectories (dirs e)) f)) \<longrightarrow> spawned st2 = [])"
proof -
  let ?S = "\<lambda>f. success (process_file e (createBinDirectories (dirs e)) f)"
  let ?G = "if sourceDirExists e then {f \<in> set (jsonFiles_of (listing e)). ?S f} else {}"
  from main_finishes [OF nn] obtain st1 where
    m1: "main e d = Finished st1" by blast
  note f1 = main_facts [OF posts nn ty m1]
  have sy1: "synced st1" using f1(4) wr by simp
  note t1 = synced_typed [OF sy1]
  have nn2: "disk st1 \<noteq> ParsedNull"
    and ty2: "\<forall>obj. disk st1 = Parsed obj \<longrightarrow> o_processedFiles obj \<noteq> None"
    and pd2: "persisted (disk st1) = set (processedFiles (progress st1))"
    using t1 by auto
  from main_finishes [OF nn2] obtain st2 where
    m2: "main e (disk st1) = Finished st2" by blast
  note f2 = main_facts [OF posts nn2 ty2 m2]
  have sy2: "synced st2" using f2(4) wr by simp
  have pf1: "set (processedFiles (progress st1)) = persisted d \<union> ?G" using f1(1) .
  have pf2: "set (processedFiles (progress st2)) = persisted (disk st1) \<union> ?G" using f2(1) .
  have eq: "set (processedFiles (progress st2)) = set (processedFiles (progress st1))"
    using pf1 pf2 pd2 by auto
  have pe: "persisted (disk st2) = persisted (disk st1)"
    using synced_typed [OF sy2] pd2 eq by simp
  have sp2: "concat (spawned st2) =
      (if sourceDirExists e
       then filter (\<lambda>f. f \<notin> persisted (disk st1)) (jsonFiles_of (listing e)) else [])"
    using f2(2) .
  have fail2: "\<forall>f \<in> set (concat (spawned st2)). \<not> ?S f"
    using sp2 pd2 pf1 by (auto split: if_splits)
  then have pr2: "processed st2 = 0" using f2(3) by blast
  have all: "(\<forall>f \<in> set (jsonFiles_of (listing e)). ?S f) \<longrightarrow> spawned st2 = []"
  proof
    assume a: "\<forall>f \<in> set (jsonFiles_of (listing e)). ?S f"
    have "concat (spawned st2) = []"
      using sp2 pd2 pf1 a by (auto simp: filter_empty_conv split: if_splits)
    then show "spawned st2 = []" using f2(5) by simp
  qed
  from m1 m2 pf1 pd2 eq pe pr2 fail2 all show ?thesis by blast
qed


lemma file_on_disk_saveProgress:
  "saveOk e (length (saved st)) \<Longrightarrow>
     file_on_disk (saveProgress e st) = Parsed (Some (completedFiles (shared st)))"
  by (simp add: saveProgress_def Let_def)

lemma upload_rounds_clean:
  "\<forall>f \<in> set fs. fault e f = None \<Longrightarrow> \<forall>n. saveOk e n \<Longrightarrow> \<not> mutex (shared st) \<Longrightarrow>
     \<exists>st'. upload_rounds e fs i st = Some st' \<and>
       set (completedFiles (shared st')) = set (completedFiles (shared st)) \<union> set (drop i fs) \<and>
       (i < length fs \<longrightarrow> file_on_disk st' = Parsed (Some (completedFiles (shared st')))) \<and>
       (\<not> i < length fs \<longrightarrow> st' = st)"
proof (induction e fs i st rule: upload_rounds.induct)
  case (1 e fs i st)
  show ?case
  proof (cases "i < length fs")
    case False
    then show ?thesis by (simp add: upload_rounds_done)
  next
    case True
    let ?n = MAX_CONCURRENT_UPLOADS
    let ?b = "slice fs i (i + ?n)"
    from upload_batch_total [OF "1.prems"(3)] obtain st1 ss where
      b: "upload_batch e ?b st = Some (st1, ss)" by blast
    note f = upload_batch_facts [OF b]
    have sl: "?b = take ?n (drop i fs)" by (simp add: slice_def)
    have sub: "set ?b \<subseteq> set fs" using set_slice_subset [of fs i "i + ?n"] by (auto dest: in_set_dropD)
    then have nofault: "\<forall>f \<in> set ?b. fault e f = None" using "1.prems"(1) by blast
    then have pr: "promise_all ss = Resolved"
      using f by (simp add: promise_all_upload)
    have cf1: "set (completedFiles (shared st1)) = set (completedFiles (shared st)) \<union> set ?b"
      using f nofault by auto
    have m1: "\<not> mutex (shared (saveProgress e st1))" using f "1.prems"(3) by simp
    from "1.IH" [OF True b refl pr "1.prems"(1,2) m1] obtain st' where
      r: "upload_rounds e fs (i + ?n) (saveProgress e st1) = Some st'" and
      c: "set (completedFiles (shared st')) =
            set (completedFiles (shared (saveProgress e st1))) \<union> set (drop (i + ?n) fs)" and
      d1: "i + ?n < length fs \<longrightarrow> file_on_disk st' = Parsed (Some (completedFiles (shared st')))" and
      d2: "\<not> i + ?n < length fs \<longrightarrow> st' = saveProgress e st1"
      by blast
    have whole: "upload_rounds e fs i st = Some st'"
      using True b pr r by (subst upload_rounds.simps) simp
    have "set ?b \<union> set (drop (i + ?n) fs) = set (drop i fs)"
      using set_take_drop_step [of ?n i fs] sl by simp
    then have cf: "set (completedFiles (shared st')) =
        set (completedFiles (shared st)) \<union> set (drop i fs)"
      using c cf1 by auto
    have dk: "file_on_disk st' = Parsed (Some (completedFiles (shared st')))"
    proof (cases "i + ?n < length fs")
      case True
      then show ?thesis using d1 by simp
    next
      case False
      then have "st' = saveProgress e st1" using d2 by simp
      then show ?thesis using file_on_disk_saveProgress [of e st1] "1.prems"(2) by simp
    qed
    show ?thesis using whole cf dk True by blast
  qed
qed

text \<open>Running the upload script twice over the same directory, when no upload fails.\<close>

lemma upload_twice:
  assumes nf: "\<forall>f. fault e f = None" and wr: "\<forall>n. saveOk e n"
  shows "\<exists>us1 us2. uploadDirectoryWithTransferManager e d = Some us1 \<and>
     uploadDirectoryWithTransferManager e (file_on_disk us1) = Some us2 \<and>
     (\<forall>files. allFiles e = Some files \<longrightarrow> set files \<subseteq> set (completedFiles (shared us1))) \<and>
     set (completedFiles (shared us2)) = set (completedFiles (shared us1)) \<and>
     file_on_disk us2 = file_on_disk us1 \<and>
     started us2 = [] \<and> bucket us2 = [] \<and> saved us2 = [] \<and> uploaded (shared us2) = 0"
proof -
  obtain completed lines where l: "load_completedFiles d = (completed, lines)"
    by (cases "load_completedFiles d")
  show ?thesis
  proof (cases "allFiles e")
    case None
    then show ?thesis using l
      by (simp add: uploadDirectoryWithTransferManager_def Let_def split: prod.splits)
  next
    case (Some files)
    let ?fu = "filesToUpload_of completed files"
    let ?st0 = "\<lparr>shared = \<lparr>uploaded = 0, failed = 0, total = length ?fu, completedFiles = completed,
                          mutex = False\<rparr>,
                file_on_disk = d, saved = [], out = lines, started = [], bucket = []\<rparr>"
    have run: "\<And>d' completed' lines'. load_completedFiles d' = (completed', lines') \<Longrightarrow>
        uploadDirectoryWithTransferManager e d' =
          upload_rounds e (filesToUpload_of completed' files) 0
            \<lparr>shared = \<lparr>uploaded = 0, failed = 0,
                        total = length (filesToUpload_of completed' files),
                        completedFiles = completed', mutex = False\<rparr>,
             file_on_disk = d', saved = [], out = lines', started = [], bucket = []\<rparr>"
      using Some by (simp add: uploadDirectoryWithTransferManager_def Let_def)
    have "\<forall>f \<in> set ?fu. fault e f = None" using nf by simp
    from upload_rounds_clean [OF this wr, of ?st0 0] obtain us1 where
      r1: "upload_rounds e ?fu 0 ?st0 = Some us1" and
      c1: "set (completedFiles (shared us1)) = set completed \<union> set ?fu" and
      d1: "0 < length ?fu \<longrightarrow> file_on_disk us1 = Parsed (Some (completedFiles (shared us1)))" and
      e1: "\<not> 0 < length ?fu \<longrightarrow> us1 = ?st0"
      by auto
    have m1: "uploadDirectoryWithTransferManager e d = Some us1" using run [OF l] r1 by simp
    have files: "set files \<subseteq> set (completedFiles (shared us1))"
      using c1 by (auto simp: filesToUpload_of_def)
    obtain completed2 lines2 where
      l2: "load_completedFiles (file_on_disk us1) = (completed2, lines2)"
      by (cases "load_completedFiles (file_on_disk us1)")
    have c2: "set completed2 = set (completedFiles (shared us1))"
    proof (cases "0 < length ?fu")
      case True
      then show ?thesis using d1 l2 by (simp add: load_completedFiles_def)
    next
      case False
      then show ?thesis using e1 l2 l by simp
    qed
    have fu2: "filesToUpload_of completed2 files = []"
      using files c2 by (auto simp: filesToUpload_of_def filter_empty_conv)
    let ?st2 = "\<lparr>shared = \<lparr>uploaded = 0, failed = 0, total = 0,
                          completedFiles = completed2, mutex = False\<rparr>,
                file_on_disk = file_on_disk us1, saved = [], out = lines2, started = [],
                bucket = []\<rparr>"
    have m2: "uploadDirectoryWithTransferManager e (file_on_disk us1) = Some ?st2"
      using run [OF l2] fu2 by (simp add: upload_rounds_done)
    show ?thesis using m1 m2 c2 files Some by simp
  qed
qed

text \<open>
  Claim C6 at the upload script run twice over the same directory. The directory
  holds three files, the upload of \<^verbatim>\<open>b.json\<close> fails each time, and there is no progress
  file. The first run uploads \<^verbatim>\<open>a.json\<close> and \<^verbatim>\<open>sub/c.json\<close> and completes them in memory;
  the rejected promise of \<^verbatim>\<open>b.json\<close> ends the loop before \<^verbatim>\<open>saveProgress\<close>, so the run
  ends without a progress file. The second run loads nothing, starts all three
  uploads again and uploads \<^verbatim>\<open>a.json\<close> and \<^verbatim>\<open>sub/c.json\<close> a second time: two successful
  uploads where the first run had left only \<^verbatim>\<open>b.json\<close> to do.
\<close>

theorem second_run_repeats_uploads:
  "(case uploadDirectoryWithTransferManager demo_faulty_env Absent of
      Some us1 \<Rightarrow>
        bucket us1 = [''a.json'', ''sub/c.json''] \<and>
        completedFiles (shared us1) = [''a.json'', ''sub/c.json''] \<and>
        saved us1 = [] \<and> file_on_disk us1 = Absent \<and>
        (case uploadDirectoryWithTransferManager demo_faulty_env (file_on_disk us1) of
           Some us2 \<Rightarrow>
             started us2 = [''a.json'', ''b.json'', ''sub/c.json''] \<and>
             bucket us2 = [''a.json'', ''sub/c.json''] \<and>
             uploaded (shared us2) = 2 \<and>
             completedFiles (shared us2) = completedFiles (shared us1) \<and>
             file_on_disk us2 = Absent
         | None \<Rightarrow> False)
    | None \<Rightarrow> False)"
  by code_simp


section \<open>Rounds that end without a save\<close>


text \<open>A round whose promises all resolve ends with a save of the whole list.\<close>

lemma resolved_round_saves:
  assumes "\<forall>b \<in> set (round_batches e fs i). settle_of (fate e b) = Resolved"
  shows "\<exists>st'. process_round e ds fs i st = Some st' \<and> saves st' \<noteq> [] \<and>
           o_processedFiles (last (saves st')) = Some (processedFiles (progress st'))"
proof -
  let ?st0 = "drain e ds (st\<lparr>spawned := spawned st @ round_batches e fs i\<rparr>)"
  obtain st1 ss late where w: "run_workers e ds (round_batches e fs i) ?st0 = (st1, ss, late)"
    by (cases "run_workers e ds (round_batches e fs i) ?st0")
  have "promise_all ss = Resolved"
    using promise_all_run_workers [of e ds "round_batches e fs i" ?st0] w assms by auto
  then have "process_round e ds fs i st = Some (ProgressTracker_save e st1)"
    using w by (simp add: process_round_def Let_def)
  then show ?thesis
    by (simp add: ProgressTracker_save_def writeFile_def Let_def to_json_def)
qed

text \<open>Inside a worker one file's failure touches no other file: the results are those
  of the files one by one, and every file of the batch that can be placed is among
  the processed files once the message has been handled.\<close>

lemma worker_isolates_failures:
  "map rfile (workerProcess e ds b) = b"
  "f \<in> set b \<Longrightarrow> success (process_file e ds f) \<Longrightarrow>
     f \<in> set (processedFiles (progress (fst (on_message e b (Results (workerProcess e ds b)) st))))"
  by (simp_all add: rfile_workerProcess on_message_def set_fold_consume_worker)

text \<open>
  Claim C3 at two runs. In the upload script a batch of three uploads of which
  \<^verbatim>\<open>b.json\<close> fails: the two others are uploaded and completed in memory, every upload of
  the round has reported, and the run ends without one call of \<^verbatim>\<open>saveProgress\<close>, the
  progress file still absent. In the partitioning script a first round of two
  workers, the second of which emits \<^verbatim>\<open>'error'\<close>: the first worker's 99 placed files
  are in the progress object when the round has ended, no save has been made and the
  checkpoint is still absent, and the second round is next.
\<close>

theorem rejected_round_skips_save:
  "(case uploadDirectoryWithTransferManager demo_faulty_env Absent of
      Some us \<Rightarrow>
        started us = [''a.json'', ''b.json'', ''sub/c.json''] \<and>
        bucket us = [''a.json'', ''sub/c.json''] \<and>
        completedFiles (shared us) = [''a.json'', ''sub/c.json''] \<and>
        failed (shared us) = 1 \<and> saved us = [] \<and> file_on_disk us = Absent \<and>
        out us = [FailedToUpload ''b.json'', TransferFailed]
    | None \<Rightarrow> False)
   \<and> length many_files = 201
   \<and> MAX_WORKERS demo_crash_env = 2
   \<and> (case process_round demo_crash_env demo_dirs many_files 0
              (initial_state Absent [] (default_progress 0)) of
        Some st \<Rightarrow>
          map length (spawned st) = [100, 100] \<and>
          length (processedFiles (progress st)) = 99 \<and> processed st = 99 \<and>
          saves st = [] \<and> disk st = Absent \<and> last (console st) = ErrorProcessingBatch
      | None \<Rightarrow> False)"
  by code_simp

text \<open>
  Claim C5 at a run of the upload script. Of 31 files the first cannot be parsed.
  The 30 uploads of the first batch are started and the 29 others succeed, but the
  rejected promise ends the loop: the 31st file \<^verbatim>\<open>bn.json\<close> is never started, and
  nothing is saved.
\<close>

theorem failed_upload_aborts_run:
  "length thirty_one_files = 31
   \<and> last thirty_one_files = ''bn.json''
   \<and> (case uploadDirectoryWithTransferManager demo_abort_env Absent of
        Some us \<Rightarrow>
          started us = take 30 thirty_one_files \<and>
          ''bn.json'' \<notin> set (started us) \<and>
          length (bucket us) = 29 \<and> uploaded (shared us) = 29 \<and> failed (shared us) = 1 \<and>
          saved us = [] \<and> file_on_disk us = Absent \<and>
          out us = [ErrorParsingJson ''bad.json'', FailedToUpload ''bad.json'', TransferFailed]
      | None \<Rightarrow> False)"
  by code_simp

section \<open>The flag serializes the updates\<close>


lemma count_update:
  "i < length xs \<Longrightarrow>
     length (filter P (xs[i := y])) + (if P (xs ! i) then 1 else 0) =
     length (filter P xs) + (if P y then 1 else 0)"
proof (induction xs arbitrary: i)
  case Nil
  then show ?case by simp
next
  case (Cons x xs)
  show ?case
  proof (cases i)
    case 0
    then show ?thesis by simp
  next
    case (Suc k)
    then have "k < length xs" using Cons.prems by simp
    from Cons.IH [OF this] Suc show ?thesis by simp
  qed
qed

lemma count_update_same:
  "i < length xs \<Longrightarrow> P y = P (xs ! i) \<Longrightarrow>
     length (filter P (xs[i := y])) = length (filter P xs)"
  using count_update [of i xs P y] by (simp split: if_splits)

lemma count_update_gain:
  "i < length xs \<Longrightarrow> P y \<Longrightarrow> \<not> P (xs ! i) \<Longrightarrow>
     length (filter P (xs[i := y])) = length (filter P xs) + 1"
  using count_update [of i xs P y] by simp

lemma count_update_loss:
  "i < length xs \<Longrightarrow> \<not> P y \<Longrightarrow> P (xs ! i) \<Longrightarrow>
     length (filter P (xs[i := y])) + 1 = length (filter P xs)"
  using count_update [of i xs P y] by simp

lemma count_pos: "i < length xs \<Longrightarrow> P (xs ! i) \<Longrightarrow> 0 < length (filter P xs)"
  by (metis filter_empty_conv length_greater_0_conv nth_mem)

lemma map_job_update: "i < length cs \<Longrightarrow> map job (cs[i := (cs ! i)\<lparr>at := x\<rparr>]) = map job cs"
  by (simp add: map_update list_update_same_conv)

lemma pushed_paths_update:
  assumes "i < length (callers s)"
  shows "pushed_paths (s\<lparr>mem := m, callers := (callers s)[i := (callers s ! i)\<lparr>at := x\<rparr>]\<rparr>) =
     {r. \<exists>j < length (callers s). job (callers s ! j) = MarkCompleted r \<and>
            (if j = i then has_pushed ((callers s ! i)\<lparr>at := x\<rparr>) else has_pushed (callers s ! j))}"
  using assms by (auto simp: pushed_paths_def nth_list_update)


lemma mutex_push [simp]: "mutex (push_completed r m) = mutex m"
  by (simp add: push_completed_def)

lemma mutex_count_uploaded [simp]: "mutex (count_uploaded m) = mutex m"
  by (simp add: count_uploaded_def)

lemma mutex_count_failed [simp]: "mutex (count_failed m) = mutex m"
  by (simp add: count_failed_def)

lemma set_push: "set (completedFiles (push_completed r m)) = insert r (set (completedFiles m))"
  by (auto simp: push_completed_def)

text \<open>Moving caller \<open>i\<close> to the program point \<open>x\<close> with the memory \<open>m\<close>: how the three
  counts and the pushed paths change.\<close>

lemma move_counts:
  fixes s :: machine and m :: upload_progress and x :: pc
  assumes "i < length (callers s)"
  defines "s' \<equiv> s\<lparr>mem := m, callers := (callers s)[i := (callers s ! i)\<lparr>at := x\<rparr>]\<rparr>"
  shows "count_where P s' + (if P (callers s ! i) then 1 else 0) =
         count_where P s + (if P ((callers s ! i)\<lparr>at := x\<rparr>) then 1 else 0)"
    and "map job (callers s') = map job (callers s)"
    and "length (callers s') = length (callers s)"
    and "mem s' = m"
    and "\<And>j. j < length (callers s) \<Longrightarrow>
           callers s' ! j = (if j = i then (callers s ! i)\<lparr>at := x\<rparr> else callers s ! j)"
  using assms(1) count_update [OF assms(1), of P "(callers s ! i)\<lparr>at := x\<rparr>"]
  by (simp_all add: s'_def count_where_def map_job_update nth_list_update)

lemma is_mark_at [simp]: "is_mark (c\<lparr>at := x\<rparr>) = is_mark c"
  by (simp add: is_mark_def)

lemma inside_at [simp]: "inside (c\<lparr>at := x\<rparr>) = (x = Acquired \<or> x = Pushed \<or> x = Updated)"
  by (simp add: inside_def)

lemma applied_at [simp]: "applied (c\<lparr>at := x\<rparr>) = (x = Updated \<or> x = Returned)"
  by (simp add: applied_def)

lemma has_pushed_at [simp]: "has_pushed (c\<lparr>at := x\<rparr>) = (x = Pushed \<or> x = Updated \<or> x = Returned)"
  by (auto simp: has_pushed_def)

lemma serialized_move:
  fixes s :: machine and m :: upload_progress and x :: pc
  assumes inv: "serialized p jobs s" and i: "i < length (callers s)"
    and mu: "(if mutex m then 1 else 0) + (if inside (callers s ! i) then 1 else (0::nat)) =
             (if mutex (mem s) then 1 else 0) + (if x = Acquired \<or> x = Pushed \<or> x = Updated then 1 else 0)"
    and pu: "x = Pushed \<longrightarrow> is_mark (callers s ! i)"
    and up: "uploaded m + (if is_mark (callers s ! i) \<and> applied (callers s ! i) then 1 else 0) =
             uploaded (mem s) +
               (if is_mark (callers s ! i) \<and> (x = Updated \<or> x = Returned) then 1 else 0)"
    and fa: "failed m + (if \<not> is_mark (callers s ! i) \<and> applied (callers s ! i) then 1 else 0) =
             failed (mem s) +
               (if \<not> is_mark (callers s ! i) \<and> (x = Updated \<or> x = Returned) then 1 else 0)"
    and mono: "has_pushed (callers s ! i) \<longrightarrow> x = Pushed \<or> x = Updated \<or> x = Returned"
    and cf: "set (completedFiles m) =
             set (completedFiles (mem s)) \<union>
               (if (x = Pushed \<or> x = Updated \<or> x = Returned) \<and> \<not> has_pushed (callers s ! i)
                then {r. job (callers s ! i) = MarkCompleted r} else {})"
  shows "serialized p jobs (s\<lparr>mem := m, callers := (callers s)[i := (callers s ! i)\<lparr>at := x\<rparr>]\<rparr>)"
proof -
  let ?c = "callers s ! i"
  let ?s' = "s\<lparr>mem := m, callers := (callers s)[i := ?c\<lparr>at := x\<rparr>]\<rparr>"
  note mc = move_counts [OF i, where m = m and x = x]
  from inv have j0: "map job (callers s) = jobs"
    and c0: "count_where inside s = (if mutex (mem s) then 1 else 0)"
    and p0: "\<forall>j < length (callers s). at (callers s ! j) = Pushed \<longrightarrow> is_mark (callers s ! j)"
    and u0: "uploaded (mem s) = uploaded p + count_where (\<lambda>c. is_mark c \<and> applied c) s"
    and f0: "failed (mem s) = failed p + count_where (\<lambda>c. \<not> is_mark c \<and> applied c) s"
    and s0: "set (completedFiles (mem s)) = set (completedFiles p) \<union> pushed_paths s"
    by (simp_all add: serialized_def)
  have 1: "map job (callers ?s') = jobs" using mc(2) j0 by simp
  have 2: "count_where inside ?s' = (if mutex (mem ?s') then 1 else 0)"
    using mc(1) [where P = inside] c0 mu by (simp split: if_splits)
  have 3: "\<forall>j < length (callers ?s'). at (callers ?s' ! j) = Pushed \<longrightarrow> is_mark (callers ?s' ! j)"
    using p0 pu i by (simp add: nth_list_update)
  have 4: "uploaded (mem ?s') = uploaded p + count_where (\<lambda>c. is_mark c \<and> applied c) ?s'"
    using mc(1) [where P = "\<lambda>c. is_mark c \<and> applied c"] u0 up by (simp split: if_splits)
  have 5: "failed (mem ?s') = failed p + count_where (\<lambda>c. \<not> is_mark c \<and> applied c) ?s'"
    using mc(1) [where P = "\<lambda>c. \<not> is_mark c \<and> applied c"] f0 fa by (simp split: if_splits)
  have pp: "pushed_paths ?s' =
      pushed_paths s \<union>
        (if (x = Pushed \<or> x = Updated \<or> x = Returned) \<and> \<not> has_pushed ?c
         then {r. job ?c = MarkCompleted r} else {})"
    unfolding pushed_paths_update [OF i] using i mono
    by (auto simp: pushed_paths_def split: if_splits)
  have 6: "set (completedFiles (mem ?s')) = set (completedFiles p) \<union> pushed_paths ?s'"
    using s0 cf pp by auto
  show ?thesis unfolding serialized_def using 1 2 3 4 5 6 by blast
qed

lemma try_acquire_preserves:
  assumes inv: "serialized p jobs s" and i: "i < length (callers s)"
    and pc: "at (callers s ! i) = Called \<or> at (callers s ! i) = Sleeping"
  shows "serialized p jobs (try_acquire i s)"
proof -
  let ?c = "callers s ! i"
  have ni: "\<not> inside ?c" "\<not> applied ?c" "\<not> has_pushed ?c"
    using pc by (auto simp: inside_def applied_def has_pushed_def)
  show ?thesis
  proof (cases "mutex (mem s)")
    case True
    have e: "try_acquire i s = s\<lparr>mem := mem s, callers := (callers s)[i := ?c\<lparr>at := Sleeping\<rparr>]\<rparr>"
      using True by (simp add: try_acquire_def)
    show ?thesis unfolding e
      by (rule serialized_move [OF inv i]) (use ni in simp_all)
  next
    case False
    have e: "try_acquire i s =
        s\<lparr>mem := (mem s)\<lparr>mutex := True\<rparr>, callers := (callers s)[i := ?c\<lparr>at := Acquired\<rparr>]\<rparr>"
      using False by (simp add: try_acquire_def)
    show ?thesis unfolding e
      by (rule serialized_move [OF inv i]) (use ni False in simp_all)
  qed
qed

lemma inside_holds_mutex:
  assumes inv: "serialized p jobs s" and i: "i < length (callers s)" and "inside (callers s ! i)"
  shows "mutex (mem s)"
proof -
  have "0 < count_where inside s"
    using count_pos [OF i, of inside] assms(3) by (simp add: count_where_def)
  then show ?thesis using inv by (auto simp: serialized_def split: if_splits)
qed

lemma step_preserves:
  assumes inv: "serialized p jobs s"
  shows "serialized p jobs (step i s)"
proof (cases "i < length (callers s)")
  case False
  then show ?thesis using inv by (simp add: step_def)
next
  case i: True
  let ?c = "callers s ! i"
  show ?thesis
  proof (cases "at ?c")
    case Called
    then show ?thesis using try_acquire_preserves [OF inv i] i by (simp add: step_def)
  next
    case Sleeping
    then show ?thesis using try_acquire_preserves [OF inv i] i by (simp add: step_def)
  next
    case Acquired
    then have ins: "inside ?c" "\<not> applied ?c" "\<not> has_pushed ?c"
      by (simp_all add: inside_def applied_def has_pushed_def)
    note mx = inside_holds_mutex [OF inv i ins(1)]
    show ?thesis
    proof (cases "job ?c")
      case (MarkCompleted r)
      have e: "step i s = s\<lparr>mem := push_completed r (mem s),
                              callers := (callers s)[i := ?c\<lparr>at := Pushed\<rparr>]\<rparr>"
        using i Acquired MarkCompleted by (simp add: step_def)
      have mk: "is_mark ?c" using MarkCompleted by (simp add: is_mark_def)
      show ?thesis unfolding e
        by (rule serialized_move [OF inv i])
           (use ins mx mk MarkCompleted in \<open>auto simp: set_push push_completed_def\<close>)
    next
      case CountFailed
      have e: "step i s = s\<lparr>mem := count_failed (mem s),
                              callers := (callers s)[i := ?c\<lparr>at := Updated\<rparr>]\<rparr>"
        using i Acquired CountFailed by (simp add: step_def)
      have mk: "\<not> is_mark ?c" using CountFailed by (simp add: is_mark_def)
      show ?thesis unfolding e
        by (rule serialized_move [OF inv i])
           (use ins mx mk CountFailed in \<open>auto simp: count_failed_def\<close>)
    qed
  next
    case Pushed
    then have ins: "inside ?c" "\<not> applied ?c" "has_pushed ?c"
      by (simp_all add: inside_def applied_def has_pushed_def)
    note mx = inside_holds_mutex [OF inv i ins(1)]
    have mk: "is_mark ?c" using inv i Pushed by (simp add: serialized_def)
    have e: "step i s = s\<lparr>mem := count_uploaded (mem s),
                            callers := (callers s)[i := ?c\<lparr>at := Updated\<rparr>]\<rparr>"
      using i Pushed by (simp add: step_def)
    show ?thesis unfolding e
      by (rule serialized_move [OF inv i])
         (use ins mx mk in \<open>auto simp: count_uploaded_def\<close>)
  next
    case Updated
    then have ins: "inside ?c" "applied ?c" "has_pushed ?c"
      by (simp_all add: inside_def applied_def has_pushed_def)
    note mx = inside_holds_mutex [OF inv i ins(1)]
    have e: "step i s = s\<lparr>mem := (mem s)\<lparr>mutex := False\<rparr>,
                            callers := (callers s)[i := ?c\<lparr>at := Returned\<rparr>]\<rparr>"
      using i Updated by (simp add: step_def)
    show ?thesis unfolding e
      by (rule serialized_move [OF inv i]) (use ins mx in auto)
  next
    case Returned
    then show ?thesis using inv i by (simp add: step_def)
  qed
qed


lemma two_counted:
  assumes "i < j" and "j < length xs" and "P (xs ! i)" and "P (xs ! j)"
  shows "2 \<le> length (filter P xs)"
proof -
  have xs: "xs = take j xs @ xs ! j # drop (Suc j) xs"
    using assms(2) by (rule id_take_nth_drop)
  have "i < length (take j xs)" using assms(1,2) by simp
  moreover have "P (take j xs ! i)" using assms(1,3) by simp
  ultimately have a: "0 < length (filter P (take j xs))" by (rule count_pos)
  have b: "0 < length (filter P (xs ! j # drop (Suc j) xs))" using assms(4) by simp
  have "filter P xs = filter P (take j xs) @ filter P (xs ! j # drop (Suc j) xs)"
    by (subst xs) (simp only: filter_append)
  then have "length (filter P xs) =
      length (filter P (take j xs)) + length (filter P (xs ! j # drop (Suc j) xs))"
    by (simp only: length_append)
  then show ?thesis using a b by linarith
qed

lemma one_inside:
  assumes "count_where inside s \<le> 1" and "i < length (callers s)" and "j < length (callers s)"
    and "i \<noteq> j" and "inside (callers s ! i)"
  shows "\<not> inside (callers s ! j)"
proof
  assume j: "inside (callers s ! j)"
  have "2 \<le> length (filter inside (callers s))"
  proof (cases "i < j")
    case True
    then show ?thesis using two_counted [of i j "callers s" inside] assms j by simp
  next
    case False
    then have "j < i" using assms(4) by simp
    then show ?thesis using two_counted [of j i "callers s" inside] assms j by simp
  qed
  then show False using assms(1) by (simp add: count_where_def)
qed

lemma outsider_step:
  assumes "mutex (mem s)" and "\<not> inside (callers s ! j)"
  shows "mem (step j s) = mem s"
  using assms
  by (cases "at (callers s ! j)") (simp_all add: step_def try_acquire_def inside_def)

lemma serialized_start: "\<not> mutex p \<Longrightarrow> serialized p jobs (start p jobs)"
  by (auto simp: serialized_def start_def count_where_def pushed_paths_def inside_def applied_def
      has_pushed_def comp_def filter_empty_conv)

lemma serialized_interleave:
  "serialized p jobs s \<Longrightarrow> serialized p jobs (interleave schedule s)"
  unfolding interleave_def
  by (induction schedule arbitrary: s) (simp_all add: step_preserves)

lemma all_applied_marks:
  "\<forall>c \<in> set cs. applied c \<Longrightarrow>
     length (filter (\<lambda>c. is_mark c \<and> applied c) cs) =
       length (filter (\<lambda>j. j \<noteq> CountFailed) (map job cs)) \<and>
     length (filter (\<lambda>c. \<not> is_mark c \<and> applied c) cs) =
       length (filter (\<lambda>j. j = CountFailed) (map job cs))"
  by (induction cs) (auto simp: is_mark_def split: job.splits)

lemma all_returned:
  assumes inv: "serialized p jobs s" and r: "\<forall>c \<in> set (callers s). at c = Returned"
  shows "uploaded (mem s) = uploaded p + length (filter (\<lambda>j. j \<noteq> CountFailed) jobs)"
    and "failed (mem s) = failed p + length (filter (\<lambda>j. j = CountFailed) jobs)"
    and "\<not> mutex (mem s)"
proof -
  have ap: "\<forall>c \<in> set (callers s). applied c" using r by (simp add: applied_def)
  have no: "filter inside (callers s) = []"
    using r by (auto simp: filter_empty_conv inside_def)
  from inv have j0: "map job (callers s) = jobs"
    and c0: "count_where inside s = (if mutex (mem s) then 1 else 0)"
    and u0: "uploaded (mem s) = uploaded p + count_where (\<lambda>c. is_mark c \<and> applied c) s"
    and f0: "failed (mem s) = failed p + count_where (\<lambda>c. \<not> is_mark c \<and> applied c) s"
    by (simp_all add: serialized_def)
  show "uploaded (mem s) = uploaded p + length (filter (\<lambda>j. j \<noteq> CountFailed) jobs)"
    using all_applied_marks [OF ap] u0 j0 by (simp add: count_where_def)
  show "failed (mem s) = failed p + length (filter (\<lambda>j. j = CountFailed) jobs)"
    using all_applied_marks [OF ap] f0 j0 by (simp add: count_where_def)
  show "\<not> mutex (mem s)" using c0 no by (simp add: count_where_def split: if_splits)
qed

text \<open>
  Claim C1. From any shared progress with the flag free and any list of reporting
  callers, after any interleaving: at most one caller is inside
  \<^verbatim>\<open>updateProgressAtomic\<close> between taking and releasing the flag, and the flag is taken
  exactly then; while one caller is inside, no other is, and a step of any other
  caller leaves the shared progress as it is (it can only go on sleeping); the
  counters are the initial ones plus the updates applied so far and the list holds
  the initial paths plus those pushed so far, so a half-applied update (pushed, not
  yet counted) belongs to the one caller inside; and once every caller has returned,
  \<open>uploaded\<close> and \<open>failed\<close> have grown by exactly the number of completed and failed
  reports and the flag is free.
\<close>

theorem updates_are_serialized:
  "\<not> mutex p \<longrightarrow>
     (let s = interleave schedule (start p jobs)
      in count_where inside s \<le> 1
       \<and> mutex (mem s) = (\<exists>i < length (callers s). inside (callers s ! i))
       \<and> (\<forall>i j. i < length (callers s) \<and> j < length (callers s) \<and> i \<noteq> j \<and>
                  inside (callers s ! i) \<longrightarrow>
                  \<not> inside (callers s ! j) \<and> mem (step j s) = mem s)
       \<and> uploaded (mem s) = uploaded p + count_where (\<lambda>c. is_mark c \<and> applied c) s
       \<and> failed (mem s) = failed p + count_where (\<lambda>c. \<not> is_mark c \<and> applied c) s
       \<and> set (completedFiles (mem s)) = set (completedFiles p) \<union> pushed_paths s
       \<and> ((\<forall>c \<in> set (callers s). at c = Returned) \<longrightarrow>
            uploaded (mem s) = uploaded p + length (filter (\<lambda>j. j \<noteq> CountFailed) jobs) \<and>
            failed (mem s) = failed p + length (filter (\<lambda>j. j = CountFailed) jobs) \<and>
            \<not> mutex (mem s)))"
proof
  assume free: "\<not> mutex p"
  define s where "s = interleave schedule (start p jobs)"
  have inv: "serialized p jobs s"
    unfolding s_def by (rule serialized_interleave [OF serialized_start [OF free]])
  then have c0: "count_where inside s = (if mutex (mem s) then 1 else 0)"
    and u0: "uploaded (mem s) = uploaded p + count_where (\<lambda>c. is_mark c \<and> applied c) s"
    and f0: "failed (mem s) = failed p + count_where (\<lambda>c. \<not> is_mark c \<and> applied c) s"
    and s0: "set (completedFiles (mem s)) = set (completedFiles p) \<union> pushed_paths s"
    by (simp_all add: serialized_def)
  have le: "count_where inside s \<le> 1" using c0 by simp
  have mx: "mutex (mem s) = (\<exists>i < length (callers s). inside (callers s ! i))"
  proof
    assume "mutex (mem s)"
    then have "filter inside (callers s) \<noteq> []" using c0 by (auto simp: count_where_def)
    then obtain c where "c \<in> set (callers s)" "inside c" by (auto simp: filter_empty_conv)
    then show "\<exists>i < length (callers s). inside (callers s ! i)" by (metis in_set_conv_nth)
  next
    assume "\<exists>i < length (callers s). inside (callers s ! i)"
    then show "mutex (mem s)" using inside_holds_mutex [OF inv] by blast
  qed
  have ex: "\<forall>i j. i < length (callers s) \<and> j < length (callers s) \<and> i \<noteq> j \<and>
                  inside (callers s ! i) \<longrightarrow>
                  \<not> inside (callers s ! j) \<and> mem (step j s) = mem s"
  proof (intro allI impI, elim conjE)
    fix i j assume a: "i < length (callers s)" "j < length (callers s)" "i \<noteq> j"
      "inside (callers s ! i)"
    have nj: "\<not> inside (callers s ! j)" using one_inside [OF le a] .
    have "mutex (mem s)" using inside_holds_mutex [OF inv a(1) a(4)] .
    from outsider_step [OF this nj] nj
    show "\<not> inside (callers s ! j) \<and> mem (step j s) = mem s" by simp
  qed
  have fin: "(\<forall>c \<in> set (callers s). at c = Returned) \<longrightarrow>
            uploaded (mem s) = uploaded p + length (filter (\<lambda>j. j \<noteq> CountFailed) jobs) \<and>
            failed (mem s) = failed p + length (filter (\<lambda>j. j = CountFailed) jobs) \<and>
            \<not> mutex (mem s)"
    using all_returned [OF inv] by blast
  show "let s = interleave schedule (start p jobs)
      in count_where inside s \<le> 1
       \<and> mutex (mem s) = (\<exists>i < length (callers s). inside (callers s ! i))
       \<and> (\<forall>i j. i < length (callers s) \<and> j < length (callers s) \<and> i \<noteq> j \<and>
                  inside (callers s ! i) \<longrightarrow>
                  \<not> inside (callers s ! j) \<and> mem (step j s) = mem s)
       \<and> uploaded (mem s) = uploaded p + count_where (\<lambda>c. is_mark c \<and> applied c) s
       \<and> failed (mem s) = failed p + count_where (\<lambda>c. \<not> is_mark c \<and> applied c) s
       \<and> set (completedFiles (mem s)) = set (completedFiles p) \<union> pushed_paths s
       \<and> ((\<forall>c \<in> set (callers s). at c = Returned) \<longrightarrow>
            uploaded (mem s) = uploaded p + length (filter (\<lambda>j. j \<noteq> CountFailed) jobs) \<and>
            failed (mem s) = failed p + length (filter (\<lambda>j. j = CountFailed) jobs) \<and>
            \<not> mutex (mem s))"
    unfolding Let_def s_def [symmetric] using le mx ex u0 f0 s0 fin by blast
qed

theorem updates_are_serialized_witness:
  "\<not> mutex demo_upload_progress
   \<and> map at (callers (interleave [0, 1, 0] (start demo_upload_progress [MarkCompleted ''b.json'', CountFailed])))
       = [Pushed, Sleeping]
   \<and> inside (callers (interleave [0, 1, 0]
          (start demo_upload_progress [MarkCompleted ''b.json'', CountFailed])) ! 0)
   \<and> \<not> inside (callers (interleave [0, 1, 0]
          (start demo_upload_progress [MarkCompleted ''b.json'', CountFailed])) ! 1)
   \<and> mem (step 1 (interleave [0, 1, 0]
          (start demo_upload_progress [MarkCompleted ''b.json'', CountFailed]))) =
       mem (interleave [0, 1, 0] (start demo_upload_progress [MarkCompleted ''b.json'', CountFailed]))
   \<and> map at (callers (interleave [0, 1, 0, 1, 0, 0, 1, 1, 1]
          (start demo_upload_progress [MarkCompleted ''b.json'', CountFailed])))
       = [Returned, Returned]
   \<and> uploaded (mem (interleave [0, 1, 0, 1, 0, 0, 1, 1, 1]
          (start demo_upload_progress [MarkCompleted ''b.json'', CountFailed]))) = 1
   \<and> failed (mem (interleave [0, 1, 0, 1, 0, 0, 1, 1, 1]
          (start demo_upload_progress [MarkCompleted ''b.json'', CountFailed]))) = 1
   \<and> \<not> mutex (mem (interleave [0, 1, 0, 1, 0, 0, 1, 1, 1]
          (start demo_upload_progress [MarkCompleted ''b.json'', CountFailed])))"
proof -
  let ?jobs = "[MarkCompleted ''b.json'', CountFailed]"
  let ?s1 = "interleave [0, 1, 0] (start demo_upload_progress ?jobs)"
  let ?s2 = "interleave [0, 1, 0, 1, 0, 0, 1, 1, 1] (start demo_upload_progress ?jobs)"
  have free: "\<not> mutex demo_upload_progress" by (simp add: demo_upload_progress_def)
  have a1: "map at (callers ?s1) = [Pushed, Sleeping]" by code_simp
  have a2: "map at (callers ?s2) = [Returned, Returned]" by code_simp
  have l1: "length (callers ?s1) = 2" using a1 by (metis length_map length_Cons list.size(3) numeral_2_eq_2)
  have in0: "inside (callers ?s1 ! 0)" by code_simp
  have ret: "\<forall>c \<in> set (callers ?s2). at c = Returned"
  proof
    fix c assume "c \<in> set (callers ?s2)"
    then have "at c \<in> set (map at (callers ?s2))" by simp
    then show "at c = Returned" unfolding a2 by simp
  qed
  note t1 = updates_are_serialized [where p = demo_upload_progress and schedule = "[0, 1, 0]"
      and jobs = ?jobs, unfolded Let_def]
  note t2 = updates_are_serialized [where p = demo_upload_progress
      and schedule = "[0, 1, 0, 1, 0, 0, 1, 1, 1]" and jobs = ?jobs, unfolded Let_def]
  from t1 free have ex: "\<forall>i j. i < length (callers ?s1) \<and> j < length (callers ?s1) \<and> i \<noteq> j \<and>
      inside (callers ?s1 ! i) \<longrightarrow> \<not> inside (callers ?s1 ! j) \<and> mem (step j ?s1) = mem ?s1"
    by blast
  have b1: "\<not> inside (callers ?s1 ! 1) \<and> mem (step 1 ?s1) = mem ?s1"
  proof -
    have "0 < length (callers ?s1)" "1 < length (callers ?s1)" "(0::nat) \<noteq> 1"
      using l1 by simp_all
    with in0 ex show ?thesis by blast
  qed
  from t2 free ret have "uploaded (mem ?s2) =
        uploaded demo_upload_progress + length (filter (\<lambda>j. j \<noteq> CountFailed) ?jobs) \<and>
      failed (mem ?s2) =
        failed demo_upload_progress + length (filter (\<lambda>j. j = CountFailed) ?jobs) \<and>
      \<not> mutex (mem ?s2)"
    by blast
  then have b2: "uploaded (mem ?s2) = 1 \<and> failed (mem ?s2) = 1 \<and> \<not> mutex (mem ?s2)"
    by (simp add: demo_upload_progress_def)
  from free a1 in0 b1 a2 b2 show ?thesis by simp
qed
end
